theory Spec2Isabelle
  imports
    Complex_Main
    "HOL-Library.AList"
    "HOL-Library.Sublist"
    "HOL-Library.Multiset"
    "HOL-Library.Char_ord"
    "HOL-Library.List_Lexorder"
begin

section \<open>The statistics module of the match dashboard\<close>

text \<open>
  This theory embeds \<^verbatim>\<open>src/calculate_stats.py\<close> and the part of
  \<^verbatim>\<open>src/utils.py\<close> it calls (\<^verbatim>\<open>QUEUE_NAMES\<close>, \<^verbatim>\<open>get_queue_name\<close>).

  Conventions of the embedding.
  \<^item> A Python \<^verbatim>\<open>str\<close> is a \<open>string\<close>: the list of the bytes of its UTF-8 encoding.
    Prefix tests, splitting at a dot and replacing an ASCII substring act on the bytes
    as they act on the code points, and the order of the byte lists (lexicographic, a
    proper prefix first) is the order of Python's strings.
  \<^item> A Python \<^verbatim>\<open>int\<close> is an \<open>int\<close>.
  \<^item> A Python \<^verbatim>\<open>float\<close> is idealised as an exact rational (\<open>rat\<close>): the rounding
    error and the range of binary64 are not modelled. \<^verbatim>\<open>round\<close> rounds half to even.
  \<^item> An exception is a value \<open>Inl e\<close> of a sum type; a normal return is \<open>Inr v\<close>.
  \<^item> \<^verbatim>\<open>datetime.now()\<close> is an explicit argument, the reading of the clock.
\<close>

subsection \<open>Match records\<close>

text \<open>
  \<^verbatim>\<open>KeyError\<close>: \<^verbatim>\<open>m[key]\<close> on a dictionary without the key. \<^verbatim>\<open>TypeError\<close>: an
  argument that is not a list of match dictionaries.
\<close>

datatype error = KeyError | TypeError

text \<open>
  A key of a match dictionary that the code reads with \<^verbatim>\<open>.get\<close> and tests against
  \<^verbatim>\<open>None\<close> may be absent, hold JSON \<^verbatim>\<open>null\<close>, or hold a value.
\<close>

datatype 'a field = Absent | Null | Val 'a

record my_data =
  championName :: string
  kills :: int
  deaths :: int
  assists :: int
  totalDamageDealtToChampions :: int
  totalDamageTaken :: int
  win :: bool

text \<open>
  The match dictionary built by \<^verbatim>\<open>normalize_match\<close>. The keys the statistics module
  never reads (\<^verbatim>\<open>items\<close>, \<^verbatim>\<open>runes\<close>, \<^verbatim>\<open>allPlayers\<close>) are left out.
  \<^verbatim>\<open>gameVersion\<close> is \<open>None\<close> when the key is absent (the code reads it once with
  \<^verbatim>\<open>.get("gameVersion", "")\<close>); \<^verbatim>\<open>queueId\<close> may be absent or \<^verbatim>\<open>null\<close>
  (the code reads it once with \<^verbatim>\<open>.get("queueId")\<close> and an \<^verbatim>\<open>is not None\<close> test).
  \<^verbatim>\<open>gameCreation\<close> and \<^verbatim>\<open>myData\<close> are always read with \<^verbatim>\<open>m[...]\<close> and are
  fields that every record has.
\<close>

record match =
  matchId :: string
  gameCreation :: int
  queueId :: "int field"
  gameDuration :: int
  gameVersion :: "string option"
  myData :: my_data

subsection \<open>Python built-ins\<close>

text \<open>\<^verbatim>\<open>d[key]\<close> and \<^verbatim>\<open>d.get(key)\<close> on a key that may be absent or null.\<close>

definition getitem :: "'a field \<Rightarrow> error + 'a option" where
  "getitem f = (case f of Absent \<Rightarrow> Inl KeyError | Null \<Rightarrow> Inr None | Val v \<Rightarrow> Inr (Some v))"

definition get_or_none :: "'a field \<Rightarrow> 'a option" where
  "get_or_none f = (case f of Absent \<Rightarrow> None | Null \<Rightarrow> None | Val v \<Rightarrow> Some v)"

text \<open>
  A list comprehension \<^verbatim>\<open>[m for m in xs if cond(m)]\<close> whose condition may raise: the
  condition is evaluated from left to right and the first exception ends the loop.
\<close>

fun comprehension :: "('a \<Rightarrow> error + bool) \<Rightarrow> 'a list \<Rightarrow> error + 'a list" where
  "comprehension cond [] = Inr []"
| "comprehension cond (x # xs) =
     (case cond x of
        Inl e \<Rightarrow> Inl e
      | Inr b \<Rightarrow>
          (case comprehension cond xs of
             Inl e \<Rightarrow> Inl e
           | Inr ys \<Rightarrow> Inr (if b then x # ys else ys)))"

text \<open>
  \<^verbatim>\<open>s.replace(old, new)\<close>: every occurrence of \<open>old\<close>, found from left to right
  without overlap, is replaced. With an empty \<open>old\<close> Python puts \<open>new\<close> before every
  character and at the end.
\<close>

function py_replace :: "string \<Rightarrow> string \<Rightarrow> string \<Rightarrow> string" where
  "py_replace old new s =
     (if old = [] then new @ concat (map (\<lambda>c. c # new) s)
      else if s = [] then []
      else if prefix old s then new @ py_replace old new (drop (length old) s)
      else hd s # py_replace old new (tl s))"
  by pat_completeness auto
termination
  by (relation "measure (\<lambda>(old, new, s). length s)") auto

text \<open>\<^verbatim>\<open>s.split(sep)\<close> for a separator of one character: never an empty list.\<close>

fun py_split :: "char \<Rightarrow> string \<Rightarrow> string list" where
  "py_split sep [] = [[]]"
| "py_split sep (c # cs) =
     (if c = sep then [] # py_split sep cs
      else (case py_split sep cs of [] \<Rightarrow> [[c]] | w # ws \<Rightarrow> (c # w) # ws))"

text \<open>
  \<^verbatim>\<open>int(s)\<close> in base ten reads the characters of \<open>s\<close>, which are the code points
  of its UTF-8 bytes. A byte sequence that encodes no character reads as the
  replacement character \<open>U+FFFD\<close>.
\<close>

fun utf8_decode :: "string \<Rightarrow> nat list" where
  "utf8_decode [] = []"
| "utf8_decode (b # bs) =
     (let n = (of_char b :: nat) in
      if n < 0x80 then n # utf8_decode bs
      else if 0xC0 \<le> n \<and> n < 0xE0 then
        (case bs of
           c # r \<Rightarrow> (n mod 32 * 64 + of_char c mod 64) # utf8_decode r
         | _ \<Rightarrow> [0xFFFD])
      else if 0xE0 \<le> n \<and> n < 0xF0 then
        (case bs of
           c # d # r \<Rightarrow>
             (n mod 16 * 4096 + of_char c mod 64 * 64 + of_char d mod 64) # utf8_decode r
         | _ \<Rightarrow> [0xFFFD])
      else if 0xF0 \<le> n then
        (case bs of
           c # d # e # r \<Rightarrow>
             (n mod 8 * 262144 + of_char c mod 64 * 4096 + of_char d mod 64 * 64
                + of_char e mod 64) # utf8_decode r
         | _ \<Rightarrow> [0xFFFD])
      else 0xFFFD # utf8_decode bs)"

text \<open>
  Python first turns the string into ASCII: a character below 127 stays, a white-space
  character becomes a space, a decimal digit of any script becomes the ASCII digit of
  its value, and any other character becomes a question mark (there Python also ends
  the string, which changes nothing: a question mark is no part of a number). White
  space and decimal digits are those of Unicode 14.0, the version of Python 3.11;
  outside ASCII the decimal digits come in 65 blocks of ten, zero to nine, listed
  here by their zeros.
\<close>

definition unicode_space :: "nat \<Rightarrow> bool" where
  "unicode_space cp =
     (cp \<in> {0x85, 0xA0, 0x1680, 0x2028, 0x2029, 0x202F, 0x205F, 0x3000}
      \<or> (0x2000 \<le> cp \<and> cp \<le> 0x200A))"

definition decimal_zeros :: "nat list" where
  "decimal_zeros =
     [0x660, 0x6F0, 0x7C0, 0x966, 0x9E6, 0xA66, 0xAE6, 0xB66, 0xBE6, 0xC66, 0xCE6, 0xD66,
      0xDE6, 0xE50, 0xED0, 0xF20, 0x1040, 0x1090, 0x17E0, 0x1810, 0x1946, 0x19D0, 0x1A80,
      0x1A90, 0x1B50, 0x1BB0, 0x1C40, 0x1C50, 0xA620, 0xA8D0, 0xA900, 0xA9D0, 0xA9F0,
      0xAA50, 0xABF0, 0xFF10, 0x104A0, 0x10D30, 0x11066, 0x110F0, 0x11136, 0x111D0,
      0x112F0, 0x11450, 0x114D0, 0x11650, 0x116C0, 0x11730, 0x118E0, 0x11950, 0x11C50,
      0x11D50, 0x11DA0, 0x16A60, 0x16AC0, 0x16B50, 0x1D7CE, 0x1D7D8, 0x1D7E2, 0x1D7EC,
      0x1D7F6, 0x1E140, 0x1E2F0, 0x1E950, 0x1FBF0]"

definition to_decimal :: "nat \<Rightarrow> nat option" where
  "to_decimal cp = map_option (\<lambda>z. cp - z) (find (\<lambda>z. z \<le> cp \<and> cp < z + 10) decimal_zeros)"

definition ascii_of :: "nat \<Rightarrow> char" where
  "ascii_of cp =
     (if cp < 127 then char_of cp
      else if unicode_space cp then CHR '' ''
      else case to_decimal cp of Some d \<Rightarrow> char_of (48 + d) | None \<Rightarrow> CHR ''?'')"

definition to_ascii :: "string \<Rightarrow> string" where
  "to_ascii s = map ascii_of (utf8_decode s)"

text \<open>
  Then the white space of C (tab, line feed, vertical tab, form feed, carriage return,
  space) around the number is dropped, one sign is allowed, and the digits may be
  separated by single underscores. \<open>None\<close> stands for \<^verbatim>\<open>ValueError\<close>.
\<close>

definition is_space :: "char \<Rightarrow> bool" where
  "is_space c = (of_char c \<in> {9, 10, 11, 12, 13, 32 :: nat})"

definition is_digit :: "char \<Rightarrow> bool" where
  "is_digit c = (48 \<le> (of_char c :: nat) \<and> (of_char c :: nat) \<le> 57)"

definition digit_of :: "char \<Rightarrow> int" where
  "digit_of c = int (of_char c) - 48"

definition py_strip :: "string \<Rightarrow> string" where
  "py_strip s = rev (dropWhile is_space (rev (dropWhile is_space s)))"

fun digits_from :: "int \<Rightarrow> string \<Rightarrow> int option" where
  "digits_from acc [] = Some acc"
| "digits_from acc [c] = (if is_digit c then Some (acc * 10 + digit_of c) else None)"
| "digits_from acc (c # d # ds) =
     (if is_digit c then digits_from (acc * 10 + digit_of c) (d # ds)
      else if c = CHR ''_'' \<and> is_digit d then digits_from (acc * 10 + digit_of d) ds
      else None)"

definition unsigned_int :: "string \<Rightarrow> int option" where
  "unsigned_int s =
     (case s of
        [] \<Rightarrow> None
      | c # cs \<Rightarrow> if is_digit c then digits_from (digit_of c) cs else None)"

definition py_int :: "string \<Rightarrow> int option" where
  "py_int s =
     (case py_strip (to_ascii s) of
        [] \<Rightarrow> None
      | c # cs \<Rightarrow>
          if c = CHR ''-'' then map_option uminus (unsigned_int cs)
          else if c = CHR ''+'' then unsigned_int cs
          else unsigned_int (c # cs))"

text \<open>
  The interpreter limits the number of digits of a string that \<^verbatim>\<open>int\<close> reads
  (\<^verbatim>\<open>sys.get_int_max_str_digits()\<close>, 4300 unless the user changes it): with more
  digits, leading zeros counted and underscores not, \<^verbatim>\<open>int(s)\<close> raises
  \<^verbatim>\<open>ValueError\<close>. \<open>py_int\<close> is the number read when the limit allows it;
  \<open>py_int_limited\<close> is the call \<^verbatim>\<open>int(s)\<close>.
\<close>

definition int_max_str_digits :: nat where
  "int_max_str_digits = 4300"

definition digit_count :: "string \<Rightarrow> nat" where
  "digit_count s = length (filter is_digit (to_ascii s))"

definition py_int_limited :: "string \<Rightarrow> int option" where
  "py_int_limited s = (if int_max_str_digits < digit_count s then None else py_int s)"

text \<open>\<^verbatim>\<open>str(n)\<close> of an integer.\<close>

function decimal :: "nat \<Rightarrow> string" where
  "decimal n = (if n < 10 then [char_of (48 + n)] else decimal (n div 10) @ [char_of (48 + n mod 10)])"
  by pat_completeness auto
termination
  by (relation "measure id") auto

definition py_str :: "int \<Rightarrow> string" where
  "py_str n = (if n < 0 then CHR ''-'' # decimal (nat (- n)) else decimal (nat n))"

text \<open>
  \<^verbatim>\<open>round(x)\<close> and \<^verbatim>\<open>round(x, n)\<close>: to the nearest integer (to the nearest multiple
  of \<open>10\<^sup>-\<^sup>n\<close>), a tie to the even neighbour.
\<close>

definition py_round :: "rat \<Rightarrow> int" where
  "py_round x =
     (let f = \<lfloor>x\<rfloor>; r = x - of_int f
      in if r < 1 / 2 then f else if 1 / 2 < r then f + 1 else if even f then f else f + 1)"

definition py_round_nd :: "rat \<Rightarrow> nat \<Rightarrow> rat" where
  "py_round_nd x n = of_int (py_round (x * 10 ^ n)) / 10 ^ n"

text \<open>
  \<^verbatim>\<open>sorted(xs, key=k, reverse=True)\<close> and \<^verbatim>\<open>xs.sort(key=k, reverse=True)\<close>: Python's
  sort is stable, also when reversed, so the result is in descending order of the key
  and elements of equal key keep their order. \<^verbatim>\<open>xs[:count]\<close> is the slice.
\<close>

definition sorted_reverse :: "('a \<Rightarrow> int) \<Rightarrow> 'a list \<Rightarrow> 'a list" where
  "sorted_reverse k xs = sort_key (\<lambda>x. - k x) xs"

definition slice_to :: "int \<Rightarrow> 'a list \<Rightarrow> 'a list" where
  "slice_to n xs = take (nat (if n < 0 then int (length xs) + n else n)) xs"

subsection \<open>The clock\<close>

text \<open>
  What the code uses of \<^verbatim>\<open>datetime.now()\<close>: the instant in milliseconds since the
  epoch, the day of the week (Monday is 0) and the time elapsed since local midnight.
  \<^verbatim>\<open>timedelta\<close> arithmetic is modelled for a zone whose offset does not change
  (a day is 86400000 ms).
\<close>

record datetime =
  timestamp_ms :: int
  weekday :: nat
  since_midnight_ms :: int

definition day_ms :: int where
  "day_ms = 86400000"

definition monday_start :: "datetime \<Rightarrow> int" where
  "monday_start now = timestamp_ms now - int (weekday now) * day_ms - since_midnight_ms now"

subsection \<open>\<^verbatim>\<open>filter_matches\<close>\<close>

text \<open>
  An element \<open>m\<close> of a Python list of matches is a reference to a dictionary, and
  \<^verbatim>\<open>m["gameVersion"]\<close> reads the dictionary it refers to. The body of
  \<^verbatim>\<open>filter_matches\<close> is therefore written over any type of elements, with the
  function \<open>deref\<close> that reads the dictionary of an element; the elements it returns
  are elements of its argument. Where only the dictionaries matter, the elements
  are the dictionaries themselves and \<open>deref\<close> is the identity.
\<close>

definition period_filter ::
    "('a \<Rightarrow> match) \<Rightarrow> datetime \<Rightarrow> string \<Rightarrow> 'a list \<Rightarrow> error + 'a list" where
  "period_filter deref now period filtered =
     (if period \<noteq> ''all'' then
        if prefix ''patch_'' period then
          let patch_version = py_replace ''patch_'' '''' period
          in comprehension
               (\<lambda>m. case gameVersion (deref m) of
                       None \<Rightarrow> Inl KeyError
                     | Some v \<Rightarrow> Inr (prefix patch_version v))
               filtered
        else if period = ''this_week'' then
          let threshold = monday_start now
          in Inr (filter (\<lambda>m. threshold \<le> gameCreation (deref m)) filtered)
        else if period = ''last_week'' then
          let this_monday_start = monday_start now;
              start_threshold = this_monday_start - 7 * day_ms;
              end_threshold = this_monday_start
          in Inr (filter (\<lambda>m. start_threshold \<le> gameCreation (deref m)
                                \<and> gameCreation (deref m) < end_threshold)
                    filtered)
        else if period = ''last_30_days'' then
          let threshold = timestamp_ms now - 30 * day_ms
          in Inr (filter (\<lambda>m. threshold \<le> gameCreation (deref m)) filtered)
        else if period = ''last_7_days'' then
          let threshold = timestamp_ms now - 7 * day_ms
          in Inr (filter (\<lambda>m. threshold \<le> gameCreation (deref m)) filtered)
        else Inr filtered
      else Inr filtered)"

text \<open>
  \<^verbatim>\<open>except ValueError\<close> catches the failure of \<^verbatim>\<open>int(mode)\<close> only: a
  \<^verbatim>\<open>KeyError\<close> of the comprehension leaves the function.
\<close>

definition mode_filter :: "('a \<Rightarrow> match) \<Rightarrow> string \<Rightarrow> 'a list \<Rightarrow> error + 'a list" where
  "mode_filter deref mode filtered =
     (if mode \<noteq> ''all'' then
        case py_int_limited mode of
          None \<Rightarrow> Inr filtered
        | Some queue_id \<Rightarrow>
            comprehension
              (\<lambda>m. case getitem (queueId (deref m)) of
                      Inl e \<Rightarrow> Inl e
                    | Inr q \<Rightarrow> Inr (q = Some queue_id))
              filtered
      else Inr filtered)"

definition filter_elements ::
    "('a \<Rightarrow> match) \<Rightarrow> datetime \<Rightarrow> 'a list \<Rightarrow> string \<Rightarrow> string \<Rightarrow> error + 'a list" where
  "filter_elements deref now matches period mode =
     (case period_filter deref now period matches of
        Inl e \<Rightarrow> Inl e
      | Inr filtered \<Rightarrow> mode_filter deref mode filtered)"

definition filter_matches ::
    "datetime \<Rightarrow> match list \<Rightarrow> string \<Rightarrow> string \<Rightarrow> error + match list" where
  "filter_matches now matches period mode = filter_elements (\<lambda>m. m) now matches period mode"

subsection \<open>\<^verbatim>\<open>calculate_champion_stats\<close>\<close>

record aggregate =
  agg_championName :: string
  agg_games :: int
  agg_wins :: int
  agg_totalKills :: int
  agg_totalDeaths :: int
  agg_totalAssists :: int
  agg_totalDamageDealt :: int
  agg_totalDamageTaken :: int

record champion_stats =
  stat_championName :: string
  games :: int
  wins :: int
  losses :: int
  winRate :: rat
  totalKills :: int
  totalDeaths :: int
  totalAssists :: int
  avgKDA :: rat
  avgDamageDealt :: int
  avgDamageTaken :: int

definition new_aggregate :: "string \<Rightarrow> aggregate" where
  "new_aggregate champion_name =
     \<lparr>agg_championName = champion_name, agg_games = 0, agg_wins = 0, agg_totalKills = 0,
      agg_totalDeaths = 0, agg_totalAssists = 0, agg_totalDamageDealt = 0,
      agg_totalDamageTaken = 0\<rparr>"

definition add_match :: "my_data \<Rightarrow> aggregate \<Rightarrow> aggregate" where
  "add_match d agg =
     agg\<lparr>agg_games := agg_games agg + 1,
         agg_wins := (if win d then agg_wins agg + 1 else agg_wins agg),
         agg_totalKills := agg_totalKills agg + kills d,
         agg_totalDeaths := agg_totalDeaths agg + deaths d,
         agg_totalAssists := agg_totalAssists agg + assists d,
         agg_totalDamageDealt := agg_totalDamageDealt agg + totalDamageDealtToChampions d,
         agg_totalDamageTaken := agg_totalDamageTaken agg + totalDamageTaken d\<rparr>"

text \<open>
  One round of the first loop. The dictionary \<^verbatim>\<open>champion_aggregates\<close> keeps its keys
  in the order of their insertion, so it is an association list: a new key goes to the
  end, and the update of an entry leaves it in its place.
\<close>

definition accumulate :: "(string \<times> aggregate) list \<Rightarrow> match \<Rightarrow> (string \<times> aggregate) list" where
  "accumulate champion_aggregates m =
     (let d = myData m;
          champion_name = championName d;
          inserted =
            (if map_of champion_aggregates champion_name = None
             then champion_aggregates @ [(champion_name, new_aggregate champion_name)]
             else champion_aggregates)
      in AList.map_entry champion_name (add_match d) inserted)"

text \<open>The body of the second loop: the entry of one champion.\<close>

definition stat_of :: "string \<times> aggregate \<Rightarrow> champion_stats" where
  "stat_of entry =
     (let champion_name = fst entry;
          agg = snd entry;
          n = agg_games agg;
          w = agg_wins agg;
          total_kills = agg_totalKills agg;
          total_deaths = agg_totalDeaths agg;
          total_assists = agg_totalAssists agg;
          win_rate = (if 0 < n then of_int w / of_int n * 100 else 0);
          avg_kda = of_int (total_kills + total_assists)
                      / of_int (if total_deaths = 0 then 1 else total_deaths);
          avg_damage_dealt = (if 0 < n then of_int (agg_totalDamageDealt agg) / of_int n else 0);
          avg_damage_taken = (if 0 < n then of_int (agg_totalDamageTaken agg) / of_int n else 0)
      in \<lparr>stat_championName = champion_name, games = n, wins = w, losses = n - w,
          winRate = py_round_nd win_rate 1,
          totalKills = total_kills, totalDeaths = total_deaths, totalAssists = total_assists,
          avgKDA = py_round_nd avg_kda 2,
          avgDamageDealt = py_round avg_damage_dealt,
          avgDamageTaken = py_round avg_damage_taken\<rparr>)"

definition calculate_champion_stats ::
    "datetime \<Rightarrow> match list \<Rightarrow> string \<Rightarrow> string \<Rightarrow> error + champion_stats list" where
  "calculate_champion_stats now matches period mode =
     (case filter_matches now matches period mode of
        Inl e \<Rightarrow> Inl e
      | Inr filtered_matches \<Rightarrow>
          if filtered_matches = [] then Inr []
          else
            let champion_aggregates = foldl accumulate [] filtered_matches;
                champion_stats = map stat_of champion_aggregates
            in Inr (sorted_reverse games champion_stats))"

subsection \<open>\<^verbatim>\<open>get_recent_matches\<close>\<close>

definition recent_elements :: "('a \<Rightarrow> match) \<Rightarrow> 'a list \<Rightarrow> int \<Rightarrow> 'a list" where
  "recent_elements deref matches n =
     (let sorted_matches = sorted_reverse (\<lambda>m. gameCreation (deref m)) matches
      in slice_to n sorted_matches)"

definition get_recent_matches :: "match list \<Rightarrow> int \<Rightarrow> match list" where
  "get_recent_matches matches n = recent_elements (\<lambda>m. m) matches n"

subsection \<open>\<^verbatim>\<open>get_available_patches\<close>\<close>

text \<open>
  One round of the loop over the matches. The set \<^verbatim>\<open>patches\<close> is a set of strings;
  \<^verbatim>\<open>sorted(patches, reverse=True)\<close> lists its elements in descending order.
\<close>

definition add_patch :: "string set \<Rightarrow> match \<Rightarrow> string set" where
  "add_patch patches m =
     (let game_version = (case gameVersion m of None \<Rightarrow> '''' | Some v \<Rightarrow> v);
          parts = py_split CHR ''.'' game_version
      in if 2 \<le> length parts then insert (parts ! 0 @ ''.'' @ parts ! 1) patches else patches)"

definition get_available_patches :: "match list \<Rightarrow> string list" where
  "get_available_patches matches =
     (if matches = [] then []
      else
        let patches = foldl add_patch {} matches;
            sorted_patches = rev (sorted_list_of_set patches)
        in slice_to 5 sorted_patches)"

subsection \<open>\<^verbatim>\<open>get_available_modes\<close> and \<^verbatim>\<open>get_queue_name\<close>\<close>

text \<open>
  The table \<^verbatim>\<open>QUEUE_NAMES\<close> of \<^verbatim>\<open>utils.py\<close>. Its Japanese names are the bytes
  of their UTF-8 encoding; the fallback of \<^verbatim>\<open>get_queue_name\<close> is the word
  \<^verbatim>\<open>sonota\<close> ("other"), a space, and the id in parentheses.
\<close>

definition rank_solo_duo :: string where
  "rank_solo_duo =
     [CHR 0xE3, CHR 0x83, CHR 0xA9, CHR 0xE3, CHR 0x83, CHR 0xB3, CHR 0xE3, CHR 0x82, CHR 0xAF,
      CHR 0xE3, CHR 0x82, CHR 0xBD, CHR 0xE3, CHR 0x83, CHR 0xAD, CHR 0x2F, CHR 0xE3, CHR 0x83,
      CHR 0x87, CHR 0xE3, CHR 0x83, CHR 0xA5, CHR 0xE3, CHR 0x82, CHR 0xAA]"

definition rank_flex :: string where
  "rank_flex =
     [CHR 0xE3, CHR 0x83, CHR 0xA9, CHR 0xE3, CHR 0x83, CHR 0xB3, CHR 0xE3, CHR 0x82, CHR 0xAF,
      CHR 0xE3, CHR 0x83, CHR 0x95, CHR 0xE3, CHR 0x83, CHR 0xAC, CHR 0xE3, CHR 0x83, CHR 0x83,
      CHR 0xE3, CHR 0x82, CHR 0xAF, CHR 0xE3, CHR 0x82, CHR 0xB9]"

definition normal_draft :: string where
  "normal_draft =
     [CHR 0xE3, CHR 0x83, CHR 0x8E, CHR 0xE3, CHR 0x83, CHR 0xBC, CHR 0xE3, CHR 0x83, CHR 0x9E,
      CHR 0xE3, CHR 0x83, CHR 0xAB, CHR 0xEF, CHR 0xBC, CHR 0x88, CHR 0xE3, CHR 0x83, CHR 0x89,
      CHR 0xE3, CHR 0x83, CHR 0xA9, CHR 0xE3, CHR 0x83, CHR 0x95, CHR 0xE3, CHR 0x83, CHR 0x88,
      CHR 0xEF, CHR 0xBC, CHR 0x89]"

definition normal_blind :: string where
  "normal_blind =
     [CHR 0xE3, CHR 0x83, CHR 0x8E, CHR 0xE3, CHR 0x83, CHR 0xBC, CHR 0xE3, CHR 0x83, CHR 0x9E,
      CHR 0xE3, CHR 0x83, CHR 0xAB, CHR 0xEF, CHR 0xBC, CHR 0x88, CHR 0xE3, CHR 0x83, CHR 0x96,
      CHR 0xE3, CHR 0x83, CHR 0xA9, CHR 0xE3, CHR 0x82, CHR 0xA4, CHR 0xE3, CHR 0x83, CHR 0xB3,
      CHR 0xE3, CHR 0x83, CHR 0x89, CHR 0xEF, CHR 0xBC, CHR 0x89]"

definition sonota :: string where
  "sonota = [CHR 0xE3, CHR 0x81, CHR 0x9D, CHR 0xE3, CHR 0x81, CHR 0xAE, CHR 0xE4, CHR 0xBB, CHR 0x96]"

definition QUEUE_NAMES :: "(int \<times> string) list" where
  "QUEUE_NAMES =
     [(420, rank_solo_duo), (440, rank_flex), (400, normal_draft), (430, normal_blind),
      (450, ''ARAM''), (1700, ''Arena''), (1900, ''URF'')]"

definition get_queue_name :: "int \<Rightarrow> string" where
  "get_queue_name queue_id =
     (case map_of QUEUE_NAMES queue_id of
        Some name \<Rightarrow> name
      | None \<Rightarrow> sonota @ '' ('' @ py_str queue_id @ '')'')"

record game_mode =
  mode_id :: string
  mode_name :: string

definition add_queue_id :: "int set \<Rightarrow> match \<Rightarrow> int set" where
  "add_queue_id queue_ids m =
     (case get_or_none (queueId m) of
        None \<Rightarrow> queue_ids
      | Some queue_id \<Rightarrow> insert queue_id queue_ids)"

definition mode_of :: "int \<Rightarrow> game_mode" where
  "mode_of queue_id = \<lparr>mode_id = py_str queue_id, mode_name = get_queue_name queue_id\<rparr>"

definition get_available_modes :: "match list \<Rightarrow> game_mode list" where
  "get_available_modes matches =
     (if matches = [] then []
      else
        let queue_ids = foldl add_queue_id {} matches;
            sorted_queue_ids = sorted_list_of_set queue_ids
        in map mode_of sorted_queue_ids)"

section \<open>The functions on a store of objects\<close>

text \<open>
  Python passes lists and dictionaries by reference. To state what a call does to its
  argument, the objects live in a store: an address is an index of the store, a list
  object holds the addresses of its items, and a call takes the store and returns the
  store it leaves. Creating an object appends it to the store; a method that changes
  an object in place (\<^verbatim>\<open>d[key] += v\<close>, \<^verbatim>\<open>xs.append(x)\<close>, \<^verbatim>\<open>xs.sort(...)\<close>) overwrites
  its cell.

  An object is placed in the store when the call returns it, or returns a list that
  holds it, or reaches it through two names (the dictionary \<^verbatim>\<open>agg\<close> of the first loop
  of \<^verbatim>\<open>calculate_champion_stats\<close>). The sets and the intermediate lists that a call
  creates and drops (\<^verbatim>\<open>matches.copy()\<close>, the result of \<^verbatim>\<open>sorted\<close> before the slice)
  are values. Strings and numbers are values, as they cannot be changed.
\<close>

type_synonym addr = nat

datatype obj =
    MatchObj match
  | AggObj aggregate
  | StatObj champion_stats
  | ModeObj game_mode
  | ListObj "addr list"
  | StrListObj "string list"

type_synonym store = "obj list"

definition alloc :: "obj \<Rightarrow> store \<Rightarrow> addr \<times> store" where
  "alloc ob s = (length s, s @ [ob])"

definition match_at :: "store \<Rightarrow> addr \<Rightarrow> match option" where
  "match_at s r =
     (if r < length s then (case s ! r of MatchObj m \<Rightarrow> Some m | _ \<Rightarrow> None) else None)"

definition agg_at :: "store \<Rightarrow> addr \<Rightarrow> aggregate option" where
  "agg_at s a =
     (if a < length s then (case s ! a of AggObj agg \<Rightarrow> Some agg | _ \<Rightarrow> None) else None)"

definition stat_at :: "store \<Rightarrow> addr \<Rightarrow> champion_stats option" where
  "stat_at s r =
     (if r < length s then (case s ! r of StatObj st \<Rightarrow> Some st | _ \<Rightarrow> None) else None)"

definition mode_at :: "store \<Rightarrow> addr \<Rightarrow> game_mode option" where
  "mode_at s r =
     (if r < length s then (case s ! r of ModeObj md \<Rightarrow> Some md | _ \<Rightarrow> None) else None)"

definition list_at :: "store \<Rightarrow> addr \<Rightarrow> addr list option" where
  "list_at s l =
     (if l < length s then (case s ! l of ListObj refs \<Rightarrow> Some refs | _ \<Rightarrow> None) else None)"

definition strings_at :: "store \<Rightarrow> addr \<Rightarrow> string list option" where
  "strings_at s l =
     (if l < length s then (case s ! l of StrListObj xs \<Rightarrow> Some xs | _ \<Rightarrow> None) else None)"

text \<open>
  The argument \<^verbatim>\<open>matches\<close> as a call finds it: the items of the list object, each with
  the dictionary it refers to. \<open>None\<close> when the address does not hold a list of match
  dictionaries.
\<close>

definition load_matches :: "store \<Rightarrow> addr \<Rightarrow> (addr \<times> match) list option" where
  "load_matches s matches =
     (case list_at s matches of
        None \<Rightarrow> None
      | Some refs \<Rightarrow> those (map (\<lambda>r. map_option (Pair r) (match_at s r)) refs))"

text \<open>\<^verbatim>\<open>xs.append(x)\<close> and \<^verbatim>\<open>xs.sort(key=..., reverse=True)\<close> on the list object at \<open>l\<close>.\<close>

definition list_append :: "addr \<Rightarrow> addr \<Rightarrow> store \<Rightarrow> store" where
  "list_append l r s =
     (case list_at s l of None \<Rightarrow> s | Some refs \<Rightarrow> s[l := ListObj (refs @ [r])])"

definition games_at :: "store \<Rightarrow> addr \<Rightarrow> int" where
  "games_at s r = (case stat_at s r of None \<Rightarrow> 0 | Some st \<Rightarrow> games st)"

definition list_sort_by_games :: "addr \<Rightarrow> store \<Rightarrow> store" where
  "list_sort_by_games l s =
     (case list_at s l of
        None \<Rightarrow> s
      | Some refs \<Rightarrow> s[l := ListObj (sorted_reverse (games_at s) refs)])"

subsection \<open>\<^verbatim>\<open>filter_matches\<close> and \<^verbatim>\<open>get_recent_matches\<close>\<close>

text \<open>
  Both read the dictionaries of the items and return a new list of some of the items
  (the items themselves, not copies of their dictionaries).
\<close>

definition filter_matches_store ::
    "datetime \<Rightarrow> addr \<Rightarrow> string \<Rightarrow> string \<Rightarrow> store \<Rightarrow> (error + addr) \<times> store" where
  "filter_matches_store now matches period mode s =
     (case load_matches s matches of
        None \<Rightarrow> (Inl TypeError, s)
      | Some items \<Rightarrow>
          (case filter_elements snd now items period mode of
             Inl e \<Rightarrow> (Inl e, s)
           | Inr filtered \<Rightarrow>
               (let (l, s') = alloc (ListObj (map fst filtered)) s in (Inr l, s'))))"

definition get_recent_matches_store :: "addr \<Rightarrow> int \<Rightarrow> store \<Rightarrow> (error + addr) \<times> store" where
  "get_recent_matches_store matches n s =
     (case load_matches s matches of
        None \<Rightarrow> (Inl TypeError, s)
      | Some items \<Rightarrow>
          (let (l, s') = alloc (ListObj (map fst (recent_elements snd items n))) s
           in (Inr l, s')))"

subsection \<open>\<^verbatim>\<open>calculate_champion_stats\<close>\<close>

text \<open>
  One round of the first loop, on the item \<open>r\<close>. \<^verbatim>\<open>champion_aggregates\<close> maps a name to
  the address of its dictionary; \<^verbatim>\<open>agg = champion_aggregates[champion_name]\<close> is that
  address, and the seven updates of \<^verbatim>\<open>agg\<close> overwrite the dictionary there.
\<close>

definition accumulate_store ::
    "(string \<times> addr) list \<times> store \<Rightarrow> addr \<Rightarrow> (string \<times> addr) list \<times> store" where
  "accumulate_store st r =
     (let champion_aggregates = fst st; s = snd st
      in case match_at s r of
           None \<Rightarrow> st
         | Some m \<Rightarrow>
             (let d = myData m;
                  champion_name = championName d;
                  inserted =
                    (if map_of champion_aggregates champion_name = None
                     then (let (a, s') = alloc (AggObj (new_aggregate champion_name)) s
                           in (champion_aggregates @ [(champion_name, a)], s'))
                     else (champion_aggregates, s))
              in case map_of (fst inserted) champion_name of
                   None \<Rightarrow> inserted
                 | Some a \<Rightarrow>
                     (case agg_at (snd inserted) a of
                        None \<Rightarrow> inserted
                      | Some agg \<Rightarrow>
                          (fst inserted, (snd inserted)[a := AggObj (add_match d agg)]))))"

text \<open>
  One round of the second loop: the dictionary \<^verbatim>\<open>stat\<close> is created and appended to
  the list \<^verbatim>\<open>champion_stats\<close> at \<open>l\<close>.
\<close>

definition emit_stat :: "addr \<Rightarrow> store \<Rightarrow> string \<times> addr \<Rightarrow> store" where
  "emit_stat l s entry =
     (case agg_at s (snd entry) of
        None \<Rightarrow> s
      | Some agg \<Rightarrow>
          (let (r, s') = alloc (StatObj (stat_of (fst entry, agg))) s in list_append l r s'))"

definition calculate_champion_stats_store ::
    "datetime \<Rightarrow> addr \<Rightarrow> string \<Rightarrow> string \<Rightarrow> store \<Rightarrow> (error + addr) \<times> store" where
  "calculate_champion_stats_store now matches period mode s =
     (case load_matches s matches of
        None \<Rightarrow> (Inl TypeError, s)
      | Some items \<Rightarrow>
          (case filter_elements snd now items period mode of
             Inl e \<Rightarrow> (Inl e, s)
           | Inr filtered_matches \<Rightarrow>
               if filtered_matches = [] then
                 (let (l, s') = alloc (ListObj []) s in (Inr l, s'))
               else
                 (let (champion_aggregates, s1) =
                        foldl accumulate_store ([], s) (map fst filtered_matches);
                      (l, s2) = alloc (ListObj []) s1;
                      s3 = foldl (emit_stat l) s2 champion_aggregates;
                      s4 = list_sort_by_games l s3
                  in (Inr l, s4))))"

subsection \<open>\<^verbatim>\<open>get_available_patches\<close> and \<^verbatim>\<open>get_available_modes\<close>\<close>

definition get_available_patches_store :: "addr \<Rightarrow> store \<Rightarrow> (error + addr) \<times> store" where
  "get_available_patches_store matches s =
     (case load_matches s matches of
        None \<Rightarrow> (Inl TypeError, s)
      | Some items \<Rightarrow>
          (let (l, s') = alloc (StrListObj (get_available_patches (map snd items))) s
           in (Inr l, s')))"

text \<open>One round of the loop over the sorted queue ids: a dictionary is created and appended.\<close>

definition emit_mode :: "addr \<Rightarrow> store \<Rightarrow> int \<Rightarrow> store" where
  "emit_mode l s queue_id =
     (let (r, s') = alloc (ModeObj (mode_of queue_id)) s in list_append l r s')"

definition get_available_modes_store :: "addr \<Rightarrow> store \<Rightarrow> (error + addr) \<times> store" where
  "get_available_modes_store matches s =
     (case load_matches s matches of
        None \<Rightarrow> (Inl TypeError, s)
      | Some items \<Rightarrow>
          if items = [] then (let (l, s') = alloc (ListObj []) s in (Inr l, s'))
          else
            (let queue_ids = foldl add_queue_id {} (map snd items);
                 sorted_queue_ids = sorted_list_of_set queue_ids;
                 (l, s1) = alloc (ListObj []) s;
                 s2 = foldl (emit_mode l) s1 sorted_queue_ids
             in (Inr l, s2)))"

section \<open>Vocabulary of the specification\<close>

declare py_replace.simps [simp del]

declare decimal.simps [simp del]

subsection \<open>Filters\<close>

text \<open>A match whose version string starts with the literal \<open>p\<close>.\<close>

definition version_starts :: "string \<Rightarrow> match \<Rightarrow> bool" where
  "version_starts p m = (case gameVersion m of None \<Rightarrow> False | Some v \<Rightarrow> prefix p v)"

text \<open>The periods the filter knows: \<open>all\<close>, a patch, and the four relative to the clock.\<close>

definition recognized_period :: "string \<Rightarrow> bool" where
  "recognized_period period =
     (period = ''all'' \<or> prefix ''patch_'' period \<or> period = ''this_week''
      \<or> period = ''last_week'' \<or> period = ''last_30_days'' \<or> period = ''last_7_days'')"

definition clock_relative :: "string \<Rightarrow> bool" where
  "clock_relative period =
     (period = ''this_week'' \<or> period = ''last_week'' \<or> period = ''last_30_days''
      \<or> period = ''last_7_days'')"

subsection \<open>Patches and queues\<close>

text \<open>
  Following the specification: the patch of a version string is its first two
  dot-separated segments, joined by a dot. A string without a dot has fewer than two
  segments and no patch; a match without the key has no patch either.
\<close>

definition patch_of :: "string \<Rightarrow> string option" where
  "patch_of v =
     (if CHR ''.'' \<in> set v
      then Some (takeWhile (\<lambda>c. c \<noteq> CHR ''.'') v @ ''.''
                 @ takeWhile (\<lambda>c. c \<noteq> CHR ''.'') (tl (dropWhile (\<lambda>c. c \<noteq> CHR ''.'') v)))
      else None)"

definition version_patch :: "match \<Rightarrow> string option" where
  "version_patch m = (case gameVersion m of None \<Rightarrow> None | Some v \<Rightarrow> patch_of v)"

definition patch_set :: "match list \<Rightarrow> string set" where
  "patch_set ms = {p. \<exists>m\<in>set ms. version_patch m = Some p}"

text \<open>The queue ids present in a list of matches: absent and null ids do not count.\<close>

definition queue_set :: "match list \<Rightarrow> int set" where
  "queue_set ms = {q. \<exists>m\<in>set ms. queueId m = Val q}"

text \<open>The number a string of decimal digits denotes.\<close>

definition digits_value :: "string \<Rightarrow> int" where
  "digits_value ds = foldl (\<lambda>a c. a * 10 + digit_of c) 0 ds"

subsection \<open>Sample data\<close>

definition sample_data :: "string \<Rightarrow> bool \<Rightarrow> my_data" where
  "sample_data champion won =
     \<lparr>championName = champion, kills = 4, deaths = 2, assists = 6,
      totalDamageDealtToChampions = 18000, totalDamageTaken = 9000, win = won\<rparr>"

definition sample_match :: "int \<Rightarrow> int field \<Rightarrow> string option \<Rightarrow> string \<Rightarrow> bool \<Rightarrow> match" where
  "sample_match created queue version champion won =
     \<lparr>matchId = ''JP1_400000001'', gameCreation = created, queueId = queue, gameDuration = 1800,
      gameVersion = version, myData = sample_data champion won\<rparr>"

text \<open>Tuesday 14 November 2023, 22:13:20, in a zone without offset.\<close>

definition sample_now :: datetime where
  "sample_now = \<lparr>timestamp_ms = 1700000000000, weekday = 1, since_midnight_ms = 80000000\<rparr>"

definition version_samples :: "match list" where
  "version_samples =
     map (\<lambda>v. sample_match 1 (Val 420) v ''Ahri'' True)
       [Some ''14.9.1.1'', Some ''14.10.2.2'', Some ''14.1.3.3'', Some ''13.24.4.4'',
        Some ''14.2.5.5'', Some ''14.3.6.6'', Some ''14'', None, Some ''14.9.7.7'']"

definition queue_samples :: "match list" where
  "queue_samples =
     map (\<lambda>q. sample_match 1 q (Some ''14.3.1.1'') ''Ahri'' True)
       [Val 450, Val 420, Null, Absent, Val 420, Val 9999]"

definition champion_samples :: "match list" where
  "champion_samples =
     map (\<lambda>(c, w). sample_match 1699900000000 (Val 420) (Some ''14.3.1.1'') c w)
       [(''Lux'', True), (''Ahri'', False), (''Jinx'', True), (''Ahri'', True), (''Lux'', False)]"

text \<open>Two later readings of the clock: within the same day, and a year on.\<close>

definition hour_later :: "datetime \<Rightarrow> datetime" where
  "hour_later now =
     now\<lparr>timestamp_ms := timestamp_ms now + 3600000,
         since_midnight_ms := since_midnight_ms now + 3600000\<rparr>"

definition year_later :: "datetime \<Rightarrow> datetime" where
  "year_later now = now\<lparr>timestamp_ms := timestamp_ms now + 365 * day_ms\<rparr>"

subsection \<open>Champions and their groups\<close>

text \<open>
  The champion names of a list of matches, in the order of the matches; the distinct
  elements of a list in the order of their first occurrence; the matches played on
  one champion; and the sums the first loop of \<^verbatim>\<open>calculate_champion_stats\<close> keeps for
  such a group.
\<close>

definition champions :: "match list \<Rightarrow> string list" where
  "champions ms = map (\<lambda>m. championName (myData m)) ms"

fun first_seen :: "'a list \<Rightarrow> 'a list" where
  "first_seen [] = []"
| "first_seen (x # xs) = x # filter (\<lambda>y. y \<noteq> x) (first_seen xs)"

definition group_of :: "string \<Rightarrow> match list \<Rightarrow> match list" where
  "group_of c ms = filter (\<lambda>m. championName (myData m) = c) ms"

definition summarize :: "string \<Rightarrow> match list \<Rightarrow> aggregate" where
  "summarize c g =
     \<lparr>agg_championName = c,
      agg_games = int (length g),
      agg_wins = int (length (filter (\<lambda>m. win (myData m)) g)),
      agg_totalKills = sum_list (map (\<lambda>m. kills (myData m)) g),
      agg_totalDeaths = sum_list (map (\<lambda>m. deaths (myData m)) g),
      agg_totalAssists = sum_list (map (\<lambda>m. assists (myData m)) g),
      agg_totalDamageDealt = sum_list (map (\<lambda>m. totalDamageDealtToChampions (myData m)) g),
      agg_totalDamageTaken = sum_list (map (\<lambda>m. totalDamageTaken (myData m)) g)\<rparr>"

definition stat_for :: "match list \<Rightarrow> string \<Rightarrow> champion_stats" where
  "stat_for fl c = stat_of (c, summarize c (group_of c fl))"

subsection \<open>Stores\<close>

text \<open>
  A call that takes the store \<open>s\<close> to \<open>s'\<close> leaves every object of \<open>s\<close> as it was when
  \<open>s\<close> is a prefix of \<open>s'\<close>; the argument at \<open>a\<close> then reads the same before and after.
  The result of a call is new when its address is not one of \<open>s\<close>.
\<close>

definition unchanged :: "store \<Rightarrow> addr \<Rightarrow> store \<Rightarrow> bool" where
  "unchanged s a s' = (prefix s s' \<and> load_matches s' a = load_matches s a)"

definition new_in :: "store \<Rightarrow> error + addr \<Rightarrow> store \<Rightarrow> bool" where
  "new_in s res s' = (case res of Inl e \<Rightarrow> s' = s | Inr l \<Rightarrow> length s \<le> l \<and> l < length s')"

text \<open>
  The result of \<^verbatim>\<open>calculate_champion_stats\<close> as its caller reads it: the exception, or
  the dictionaries that the items of the returned list refer to. \<open>None\<close> when the
  address returned holds no list of such dictionaries.
\<close>

definition read_stats :: "(error + addr) \<times> store \<Rightarrow> (error + champion_stats list) option" where
  "read_stats r =
     (case fst r of
        Inl e \<Rightarrow> Some (Inl e)
      | Inr l \<Rightarrow>
          (case list_at (snd r) l of
             None \<Rightarrow> None
           | Some refs \<Rightarrow> map_option Inr (those (map (stat_at (snd r)) refs))))"

text \<open>
  Two invariants of the first loop of \<^verbatim>\<open>calculate_champion_stats\<close>, started in the
  store \<open>s0\<close>. The dictionaries that \<^verbatim>\<open>champion_aggregates\<close> refers to were created by
  the loop. And the loop on the store keeps, at these addresses, the aggregates that
  the loop on values keeps in its association list: the same names in the same order,
  and for each name the same sums.
\<close>

definition own_aggregates :: "store \<Rightarrow> (string \<times> addr) list \<times> store \<Rightarrow> bool" where
  "own_aggregates s0 st = (prefix s0 (snd st) \<and> (\<forall>e\<in>set (fst st). length s0 \<le> snd e))"

definition aggregates_in ::
    "store \<Rightarrow> (string \<times> addr) list \<times> store \<Rightarrow> (string \<times> aggregate) list \<Rightarrow> bool" where
  "aggregates_in s0 st aggs =
     (own_aggregates s0 st \<and> map fst (fst st) = map fst aggs \<and> distinct (map fst aggs)
      \<and> distinct (map snd (fst st))
      \<and> (\<forall>e\<in>set (fst st). agg_at (snd st) (snd e) = map_of aggs (fst e)))"

text \<open>The sample matches as objects 0 to 4 of a store, and their list as object 5.\<close>

definition sample_store :: store where
  "sample_store = map MatchObj champion_samples @ [ListObj [0, 1, 2, 3, 4]]"

section \<open>Properties\<close>

subsection \<open>The scenario of two matches on one champion\<close>

text \<open>
  Claim C1. Two matches whose \<^verbatim>\<open>myData\<close> are Ahri, a win with 10/2/5, 20000 damage
  dealt and 10000 taken, and Ahri, a loss with 2/8/3, 8000 dealt and 15000 taken, with
  period "all" and mode "all": \<^verbatim>\<open>calculate_champion_stats\<close> returns exactly one
  aggregate, with games 2, wins 1, losses 1, winRate 50.0, avgKDA 2.0, avgDamageDealt
  14000 and avgDamageTaken 12500, whatever the other keys of the two matches and the
  clock; and its avgKDA is the quotient of kills plus assists by the larger of the
  deaths and 1, rounded to two decimals.
\<close>

theorem ahri_scenario:
  "\<exists>st. calculate_champion_stats now
      [m1\<lparr>myData := \<lparr>championName = ''Ahri'', kills = 10, deaths = 2, assists = 5,
                     totalDamageDealtToChampions = 20000, totalDamageTaken = 10000,
                     win = True\<rparr>\<rparr>,
       m2\<lparr>myData := \<lparr>championName = ''Ahri'', kills = 2, deaths = 8, assists = 3,
                     totalDamageDealtToChampions = 8000, totalDamageTaken = 15000,
                     win = False\<rparr>\<rparr>]
      ''all'' ''all'' = Inr [st]
    \<and> st = \<lparr>stat_championName = ''Ahri'', games = 2, wins = 1, losses = 1, winRate = 50,
            totalKills = 12, totalDeaths = 10, totalAssists = 8, avgKDA = 2,
            avgDamageDealt = 14000, avgDamageTaken = 12500\<rparr>
    \<and> avgKDA st
        = py_round_nd (of_int (totalKills st + totalAssists st) / of_int (max (totalDeaths st) 1)) 2"
  by (simp add: calculate_champion_stats_def filter_matches_def filter_elements_def
      period_filter_def mode_filter_def accumulate_def new_aggregate_def add_match_def
      stat_of_def sorted_reverse_def py_round_nd_def py_round_def Let_def)

subsection \<open>Helper lemmas: comprehensions and \<^verbatim>\<open>str.replace\<close>\<close>

lemma comprehension_total:
  "(\<And>x. x \<in> set xs \<Longrightarrow> cond x = Inr (P x)) \<Longrightarrow> comprehension cond xs = Inr (filter P xs)"
  by (induction xs) auto

lemma comprehension_raises:
  "x \<in> set xs \<Longrightarrow> cond x = Inl e \<Longrightarrow> \<exists>e'. comprehension cond xs = Inl e'"
  by (induction xs) (auto split: sum.splits)

lemma py_replace_miss:
  "old \<noteq> [] \<Longrightarrow> \<not> prefix old (c # cs) \<Longrightarrow> py_replace old new (c # cs) = c # py_replace old new cs"
  by (subst py_replace.simps) simp

lemma py_replace_hit:
  "old \<noteq> [] \<Longrightarrow> py_replace old new (old @ s) = new @ py_replace old new s"
  by (subst py_replace.simps) simp

lemma py_replace_absent:
  "old \<noteq> [] \<Longrightarrow> last old \<notin> set s \<Longrightarrow> py_replace old new s = s"
proof (induction s)
  case Nil
  then show ?case by (subst py_replace.simps) simp
next
  case (Cons c cs)
  have "\<not> prefix old (c # cs)"
  proof
    assume "prefix old (c # cs)"
    then have "set old \<subseteq> set (c # cs)"
      by (rule set_mono_prefix)
    with Cons.prems show False
      using last_in_set by blast
  qed
  with Cons show ?case
    by (simp add: py_replace_miss)
qed

lemma py_replace_patch_period:
  assumes "CHR ''_'' \<notin> set p"
  shows "py_replace ''patch_'' [] (''patch_'' @ p) = p"
proof -
  have "py_replace ''patch_'' [] (''patch_'' @ p) = [] @ py_replace ''patch_'' [] p"
    by (rule py_replace_hit) simp
  moreover have "py_replace ''patch_'' [] p = p"
    using assms by (intro py_replace_absent) simp_all
  ultimately show ?thesis by simp
qed

lemma period_filter_patch:
  assumes "prefix ''patch_'' period" and "\<forall>m\<in>set xs. gameVersion (deref m) \<noteq> None"
  shows "period_filter deref now period xs
    = Inr (filter (\<lambda>m. version_starts (py_replace ''patch_'' [] period) (deref m)) xs)"
proof -
  have "period \<noteq> ''all''"
    using assms(1) by auto
  moreover have "comprehension
         (\<lambda>m. case gameVersion (deref m) of None \<Rightarrow> Inl KeyError
               | Some v \<Rightarrow> Inr (prefix (py_replace ''patch_'' [] period) v))
         xs = Inr (filter (\<lambda>m. version_starts (py_replace ''patch_'' [] period) (deref m)) xs)"
    using assms(2) by (intro comprehension_total) (auto simp: version_starts_def split: option.splits)
  ultimately show ?thesis
    using assms(1) by (simp add: period_filter_def)
qed

lemma mode_filter_all: "mode_filter deref ''all'' xs = Inr xs"
  by (simp add: mode_filter_def)

subsection \<open>Patch periods\<close>

text \<open>
  Claim C5. For a period \<open>patch_X.Y\<close> and mode \<open>all\<close>, \<^verbatim>\<open>filter_matches\<close> keeps exactly
  the matches whose version string starts with the literal \<open>X.Y\<close>, in their original
  order. \<open>X\<close> and \<open>Y\<close> are any strings without an underscore (so \<open>X.Y\<close> holds no further
  \<open>patch_\<close> for \<^verbatim>\<open>replace\<close> to remove), and every match has its \<^verbatim>\<open>gameVersion\<close> key.
  The test is one of prefixes of strings: under \<open>patch_14.3\<close> a match of version
  \<open>14.3.456.789\<close> is kept, and one of version \<open>14.30.1.1\<close> is kept as well.
\<close>

theorem patch_period_prefix:
  "(CHR ''_'' \<notin> set x \<and> CHR ''_'' \<notin> set y \<and> (\<forall>m\<in>set matches. gameVersion m \<noteq> None)
      \<longrightarrow> filter_matches now matches (''patch_'' @ x @ ''.'' @ y) ''all''
          = Inr (filter (version_starts (x @ ''.'' @ y)) matches))
   \<and> filter_matches now
        [m1\<lparr>gameVersion := Some ''14.3.456.789''\<rparr>, m2\<lparr>gameVersion := Some ''14.30.1.1''\<rparr>]
        ''patch_14.3'' ''all''
      = Inr [m1\<lparr>gameVersion := Some ''14.3.456.789''\<rparr>, m2\<lparr>gameVersion := Some ''14.30.1.1''\<rparr>]"
proof (intro conjI impI)
  assume h: "CHR ''_'' \<notin> set x \<and> CHR ''_'' \<notin> set y \<and> (\<forall>m\<in>set matches. gameVersion m \<noteq> None)"
  then have r: "py_replace ''patch_'' [] (''patch_'' @ x @ ''.'' @ y) = x @ ''.'' @ y"
    by (intro py_replace_patch_period) auto
  have "period_filter (\<lambda>m. m) now (''patch_'' @ x @ ''.'' @ y) matches
    = Inr (filter (version_starts (py_replace ''patch_'' [] (''patch_'' @ x @ ''.'' @ y))) matches)"
    using h by (intro period_filter_patch) simp_all
  then show "filter_matches now matches (''patch_'' @ x @ ''.'' @ y) ''all''
          = Inr (filter (version_starts (x @ ''.'' @ y)) matches)"
    unfolding filter_matches_def filter_elements_def
    by (simp only: r mode_filter_all sum.case)
next
  have r: "py_replace ''patch_'' [] ''patch_14.3'' = ''14.3''"
    using py_replace_patch_period [of "''14.3''"] by simp
  have "period_filter (\<lambda>m. m) now ''patch_14.3''
          [m1\<lparr>gameVersion := Some ''14.3.456.789''\<rparr>, m2\<lparr>gameVersion := Some ''14.30.1.1''\<rparr>]
    = Inr (filter (version_starts (py_replace ''patch_'' [] ''patch_14.3''))
          [m1\<lparr>gameVersion := Some ''14.3.456.789''\<rparr>, m2\<lparr>gameVersion := Some ''14.30.1.1''\<rparr>])"
    by (intro period_filter_patch) simp_all
  then have "period_filter (\<lambda>m. m) now ''patch_14.3''
          [m1\<lparr>gameVersion := Some ''14.3.456.789''\<rparr>, m2\<lparr>gameVersion := Some ''14.30.1.1''\<rparr>]
    = Inr [m1\<lparr>gameVersion := Some ''14.3.456.789''\<rparr>, m2\<lparr>gameVersion := Some ''14.30.1.1''\<rparr>]"
    by (simp add: r version_starts_def)
  then show "filter_matches now
        [m1\<lparr>gameVersion := Some ''14.3.456.789''\<rparr>, m2\<lparr>gameVersion := Some ''14.30.1.1''\<rparr>]
        ''patch_14.3'' ''all''
      = Inr [m1\<lparr>gameVersion := Some ''14.3.456.789''\<rparr>, m2\<lparr>gameVersion := Some ''14.30.1.1''\<rparr>]"
    by (simp add: filter_matches_def filter_elements_def mode_filter_all)
qed

theorem patch_period_prefix_witness:
  "CHR ''_'' \<notin> set ''14'' \<and> CHR ''_'' \<notin> set ''3''
   \<and> gameVersion (sample_match 3 (Val 420) (Some ''14.3.456.789'') ''Ahri'' True) \<noteq> None
   \<and> gameVersion (sample_match 2 (Val 420) (Some ''14.2.1.1'') ''Lux'' False) \<noteq> None
   \<and> gameVersion (sample_match 1 (Val 450) (Some ''14.30.1.1'') ''Ahri'' True) \<noteq> None
   \<and> filter_matches sample_now
        [sample_match 3 (Val 420) (Some ''14.3.456.789'') ''Ahri'' True,
         sample_match 2 (Val 420) (Some ''14.2.1.1'') ''Lux'' False,
         sample_match 1 (Val 450) (Some ''14.30.1.1'') ''Ahri'' True]
        ''patch_14.3'' ''all''
      = Inr [sample_match 3 (Val 420) (Some ''14.3.456.789'') ''Ahri'' True,
             sample_match 1 (Val 450) (Some ''14.30.1.1'') ''Ahri'' True]"
  using patch_period_prefix
    [where x = "''14''" and y = "''3''" and now = sample_now
       and matches = "[sample_match 3 (Val 420) (Some ''14.3.456.789'') ''Ahri'' True,
         sample_match 2 (Val 420) (Some ''14.2.1.1'') ''Lux'' False,
         sample_match 1 (Val 450) (Some ''14.30.1.1'') ''Ahri'' True]"]
  by (simp add: sample_match_def version_starts_def)

subsection \<open>Unknown periods and modes\<close>

text \<open>
  Claim C6. When the mode is not \<open>all\<close> and \<^verbatim>\<open>int\<close> cannot read it (the call
  \<^verbatim>\<open>int(mode)\<close> raises \<^verbatim>\<open>ValueError\<close>, for its syntax or for its number of
  digits), the filter by mode is skipped: the result is that of mode \<open>all\<close>. When the period is none of the
  periods the filter knows, the filter by period is skipped: the result is that of
  period \<open>all\<close>. With both, the whole list comes back unchanged; \<open>abc\<close> is such a mode.
  And \<^verbatim>\<open>filter_matches\<close> raises nothing, whatever the period and the mode, on matches
  that have their \<^verbatim>\<open>gameVersion\<close> and \<^verbatim>\<open>queueId\<close> keys.
\<close>

theorem filter_silent_skip:
  "(mode \<noteq> ''all'' \<and> py_int_limited mode = None
      \<longrightarrow> filter_matches now matches period mode = filter_matches now matches period ''all'')
   \<and> (\<not> recognized_period period
      \<longrightarrow> filter_matches now matches period mode = filter_matches now matches ''all'' mode)
   \<and> (\<not> recognized_period period \<and> py_int_limited mode = None
      \<longrightarrow> filter_matches now matches period mode = Inr matches)
   \<and> py_int_limited ''abc'' = None
   \<and> ((\<forall>m\<in>set matches. gameVersion m \<noteq> None \<and> queueId m \<noteq> Absent)
      \<longrightarrow> (\<exists>filtered. filter_matches now matches period mode = Inr filtered))"
proof (intro conjI impI)
  show "py_int_limited ''abc'' = None"
    by (simp add: py_int_limited_def int_max_str_digits_def digit_count_def py_int_def
        to_ascii_def ascii_of_def py_strip_def is_space_def unsigned_int_def is_digit_def)
next
  assume "mode \<noteq> ''all'' \<and> py_int_limited mode = None"
  then show "filter_matches now matches period mode = filter_matches now matches period ''all''"
    by (simp add: filter_matches_def filter_elements_def mode_filter_def split: sum.splits)
next
  assume "\<not> recognized_period period"
  then show "filter_matches now matches period mode = filter_matches now matches ''all'' mode"
    by (simp add: filter_matches_def filter_elements_def period_filter_def recognized_period_def)
next
  assume "\<not> recognized_period period \<and> py_int_limited mode = None"
  then show "filter_matches now matches period mode = Inr matches"
    by (simp add: filter_matches_def filter_elements_def period_filter_def mode_filter_def
        recognized_period_def)
next
  assume wf: "\<forall>m\<in>set matches. gameVersion m \<noteq> None \<and> queueId m \<noteq> Absent"
  have p: "\<exists>ys. period_filter (\<lambda>m. m) now period matches = Inr ys \<and> set ys \<subseteq> set matches"
  proof (cases "period \<noteq> ''all'' \<and> prefix ''patch_'' period")
    case True
    have "comprehension
         (\<lambda>m. case gameVersion m of None \<Rightarrow> Inl KeyError
               | Some v \<Rightarrow> Inr (prefix (py_replace ''patch_'' '''' period) v))
         matches = Inr (filter (version_starts (py_replace ''patch_'' '''' period)) matches)"
      using wf by (intro comprehension_total) (auto simp: version_starts_def split: option.splits)
    with True show ?thesis
      by (simp add: period_filter_def)
  next
    case False
    then show ?thesis
      by (auto simp: period_filter_def Let_def)
  qed
  then obtain ys where ys: "period_filter (\<lambda>m. m) now period matches = Inr ys" "set ys \<subseteq> set matches"
    by blast
  have "\<exists>zs. mode_filter (\<lambda>m. m) mode ys = Inr zs"
  proof (cases "mode \<noteq> ''all'' \<and> py_int_limited mode \<noteq> None")
    case True
    then obtain q where q: "py_int_limited mode = Some q" by auto
    have "comprehension
         (\<lambda>m. case getitem (queueId m) of Inl e \<Rightarrow> Inl e | Inr v \<Rightarrow> Inr (v = Some q))
         ys = Inr (filter (\<lambda>m. queueId m = Val q) ys)"
    proof (intro comprehension_total)
      fix m assume "m \<in> set ys"
      with ys wf have "queueId m \<noteq> Absent" by auto
      then show "(case getitem (queueId m) of Inl e \<Rightarrow> Inl e | Inr v \<Rightarrow> Inr (v = Some q))
                 = Inr (queueId m = Val q)"
        by (cases "queueId m") (auto simp: getitem_def)
    qed
    with True q show ?thesis
      by (simp add: mode_filter_def)
  next
    case False
    then show ?thesis
      by (auto simp: mode_filter_def)
  qed
  with ys show "\<exists>filtered. filter_matches now matches period mode = Inr filtered"
    by (simp add: filter_matches_def filter_elements_def)
qed

theorem filter_silent_skip_witness:
  "''abc'' \<noteq> ''all'' \<and> py_int_limited ''abc'' = None \<and> \<not> recognized_period ''yesterday''
   \<and> gameVersion (sample_match 3 (Val 420) (Some ''14.3.456.789'') ''Ahri'' True) \<noteq> None
   \<and> queueId (sample_match 3 (Val 420) (Some ''14.3.456.789'') ''Ahri'' True) \<noteq> Absent
   \<and> gameVersion (sample_match 2 Null (Some ''14.2.1.1'') ''Lux'' False) \<noteq> None
   \<and> queueId (sample_match 2 Null (Some ''14.2.1.1'') ''Lux'' False) \<noteq> Absent
   \<and> filter_matches sample_now
        [sample_match 3 (Val 420) (Some ''14.3.456.789'') ''Ahri'' True,
         sample_match 2 Null (Some ''14.2.1.1'') ''Lux'' False]
        ''yesterday'' ''abc''
      = Inr [sample_match 3 (Val 420) (Some ''14.3.456.789'') ''Ahri'' True,
             sample_match 2 Null (Some ''14.2.1.1'') ''Lux'' False]
   \<and> (\<exists>filtered. filter_matches sample_now
        [sample_match 3 (Val 420) (Some ''14.3.456.789'') ''Ahri'' True,
         sample_match 2 Null (Some ''14.2.1.1'') ''Lux'' False]
        ''yesterday'' ''abc'' = Inr filtered)"
proof -
  note t = filter_silent_skip
    [where mode = "''abc''" and period = "''yesterday''" and now = sample_now
       and matches = "[sample_match 3 (Val 420) (Some ''14.3.456.789'') ''Ahri'' True,
         sample_match 2 Null (Some ''14.2.1.1'') ''Lux'' False]"]
  have a: "py_int_limited ''abc'' = None"
    using t by blast
  have r: "\<not> recognized_period ''yesterday''"
    by (simp add: recognized_period_def)
  have e: "filter_matches sample_now
        [sample_match 3 (Val 420) (Some ''14.3.456.789'') ''Ahri'' True,
         sample_match 2 Null (Some ''14.2.1.1'') ''Lux'' False]
        ''yesterday'' ''abc''
      = Inr [sample_match 3 (Val 420) (Some ''14.3.456.789'') ''Ahri'' True,
             sample_match 2 Null (Some ''14.2.1.1'') ''Lux'' False]"
    using t a r by blast
  show ?thesis
    using a r e by (simp add: sample_match_def)
qed

subsection \<open>Recent matches\<close>

text \<open>
  Claim C4. For a count \<open>n \<ge> 0\<close>, \<^verbatim>\<open>get_recent_matches\<close> returns \<open>min n (length ms)\<close>
  matches of its argument; they are in non-increasing order of \<^verbatim>\<open>gameCreation\<close>; no
  match left out is more recent than a match returned; among the matches of one
  \<^verbatim>\<open>gameCreation\<close> the ones returned are the first of the argument, in its order; and
  when the argument has at most \<open>n\<close> matches all of them are returned. The function
  takes neither a period nor a mode: nothing is filtered.
\<close>

theorem recent_matches_top:
  "0 \<le> n \<longrightarrow>
     length (get_recent_matches ms n) = min (nat n) (length ms)
   \<and> sorted_wrt (\<lambda>a b. gameCreation b \<le> gameCreation a) (get_recent_matches ms n)
   \<and> mset (get_recent_matches ms n) \<subseteq># mset ms
   \<and> (\<forall>x \<in># mset ms - mset (get_recent_matches ms n).
        \<forall>y \<in> set (get_recent_matches ms n). gameCreation x \<le> gameCreation y)
   \<and> (\<forall>t. prefix (filter (\<lambda>m. gameCreation m = t) (get_recent_matches ms n))
                  (filter (\<lambda>m. gameCreation m = t) ms))
   \<and> (int (length ms) \<le> n \<longrightarrow> mset (get_recent_matches ms n) = mset ms)"
proof
  assume n: "0 \<le> n"
  define s where "s = sort_key (\<lambda>m. - gameCreation m) ms"
  define k where "k = nat n"
  have r: "get_recent_matches ms n = take k s"
    using n by (simp add: get_recent_matches_def recent_elements_def sorted_reverse_def
        slice_to_def s_def k_def)
  have split: "s = take k s @ drop k s"
    by simp
  have ms: "mset s = mset ms"
    by (simp add: s_def)
  have srt: "sorted_wrt (\<lambda>a b. gameCreation b \<le> gameCreation a) s"
    using sorted_sort_key [of "\<lambda>m. - gameCreation m" ms] by (simp add: s_def sorted_map)
  have 1: "length (take k s) = min (nat n) (length ms)"
    by (simp add: s_def k_def min.commute)
  have 2: "sorted_wrt (\<lambda>a b. gameCreation b \<le> gameCreation a) (take k s)"
    using srt by (rule sorted_wrt_take)
  have m: "mset ms = mset (take k s) + mset (drop k s)"
    using split ms by (metis mset_append)
  then have 3: "mset (take k s) \<subseteq># mset ms"
    by simp
  have rest: "mset ms - mset (take k s) = mset (drop k s)"
    using m by simp
  have "sorted_wrt (\<lambda>a b. gameCreation b \<le> gameCreation a) (take k s @ drop k s)"
    using srt by simp
  then have "\<forall>y\<in>set (take k s). \<forall>x\<in>set (drop k s). gameCreation x \<le> gameCreation y"
    unfolding sorted_wrt_append by blast
  then have 4: "\<forall>x \<in># mset ms - mset (take k s). \<forall>y \<in> set (take k s). gameCreation x \<le> gameCreation y"
    unfolding rest by auto
  have 5: "prefix (filter (\<lambda>m. gameCreation m = t) (take k s)) (filter (\<lambda>m. gameCreation m = t) ms)" for t
  proof -
    have "filter (\<lambda>m. gameCreation m = t) s = filter (\<lambda>m. gameCreation m = t) ms"
      using sort_key_stable [of "\<lambda>m. - gameCreation m" "- t" ms] by (simp add: s_def)
    moreover have "filter (\<lambda>m. gameCreation m = t) s
        = filter (\<lambda>m. gameCreation m = t) (take k s) @ filter (\<lambda>m. gameCreation m = t) (drop k s)"
      by (metis filter_append split)
    ultimately show ?thesis
      by (metis prefixI)
  qed
  have 6: "int (length ms) \<le> n \<longrightarrow> mset (take k s) = mset ms"
    using ms by (simp add: k_def s_def)
  show "length (get_recent_matches ms n) = min (nat n) (length ms)
   \<and> sorted_wrt (\<lambda>a b. gameCreation b \<le> gameCreation a) (get_recent_matches ms n)
   \<and> mset (get_recent_matches ms n) \<subseteq># mset ms
   \<and> (\<forall>x \<in># mset ms - mset (get_recent_matches ms n).
        \<forall>y \<in> set (get_recent_matches ms n). gameCreation x \<le> gameCreation y)
   \<and> (\<forall>t. prefix (filter (\<lambda>m. gameCreation m = t) (get_recent_matches ms n))
                  (filter (\<lambda>m. gameCreation m = t) ms))
   \<and> (int (length ms) \<le> n \<longrightarrow> mset (get_recent_matches ms n) = mset ms)"
    unfolding r using 1 2 3 4 5 6 by blast
qed

theorem recent_matches_top_witness:
  "(0::int) \<le> 2
   \<and> get_recent_matches
        [sample_match 100 (Val 420) (Some ''14.3.1.1'') ''Ahri'' True,
         sample_match 300 (Val 420) (Some ''14.3.1.1'') ''Lux'' False,
         sample_match 300 (Val 450) (Some ''14.3.1.1'') ''Jinx'' True,
         sample_match 200 (Val 420) (Some ''14.3.1.1'') ''Ahri'' True] 2
      = [sample_match 300 (Val 420) (Some ''14.3.1.1'') ''Lux'' False,
         sample_match 300 (Val 450) (Some ''14.3.1.1'') ''Jinx'' True]
   \<and> length (get_recent_matches
        [sample_match 100 (Val 420) (Some ''14.3.1.1'') ''Ahri'' True,
         sample_match 300 (Val 420) (Some ''14.3.1.1'') ''Lux'' False,
         sample_match 300 (Val 450) (Some ''14.3.1.1'') ''Jinx'' True,
         sample_match 200 (Val 420) (Some ''14.3.1.1'') ''Ahri'' True] 2) = 2"
  using recent_matches_top
    [where n = 2
       and ms = "[sample_match 100 (Val 420) (Some ''14.3.1.1'') ''Ahri'' True,
         sample_match 300 (Val 420) (Some ''14.3.1.1'') ''Lux'' False,
         sample_match 300 (Val 450) (Some ''14.3.1.1'') ''Jinx'' True,
         sample_match 200 (Val 420) (Some ''14.3.1.1'') ''Ahri'' True]"]
  by (simp add: get_recent_matches_def recent_elements_def sorted_reverse_def slice_to_def
      sample_match_def)

subsection \<open>Helper lemmas: \<^verbatim>\<open>str.split\<close> and the set of patches\<close>

lemma py_split_unfold:
  "py_split c s = takeWhile (\<lambda>x. x \<noteq> c) s
     # (if c \<in> set s then py_split c (tl (dropWhile (\<lambda>x. x \<noteq> c) s)) else [])"
  by (induction s) auto

lemma py_split_nonempty: "py_split c s \<noteq> []"
  by (subst py_split_unfold) simp

lemma py_split_length: "2 \<le> length (py_split c s) \<longleftrightarrow> c \<in> set s"
  by (subst py_split_unfold)
    (cases "py_split c (tl (dropWhile (\<lambda>x. x \<noteq> c) s))"; simp add: py_split_nonempty)

lemma py_split_nth0: "py_split c s ! 0 = takeWhile (\<lambda>x. x \<noteq> c) s"
  by (subst py_split_unfold) simp

lemma py_split_nth1:
  "c \<in> set s \<Longrightarrow> py_split c s ! 1 = takeWhile (\<lambda>x. x \<noteq> c) (tl (dropWhile (\<lambda>x. x \<noteq> c) s))"
  by (subst py_split_unfold) (simp add: py_split_nth0)

lemma add_patch_eq:
  "add_patch S m = (case version_patch m of None \<Rightarrow> S | Some p \<Rightarrow> insert p S)"
  by (cases "gameVersion m")
    (simp_all add: add_patch_def version_patch_def patch_of_def py_split_length py_split_nth0
      py_split_nth1 del: One_nat_def)

lemma patch_set_snoc:
  "patch_set (ms @ [m]) = (case version_patch m of None \<Rightarrow> patch_set ms | Some p \<Rightarrow> insert p (patch_set ms))"
  by (auto simp: patch_set_def split: option.splits)

lemma foldl_add_patch: "foldl add_patch {} ms = patch_set ms"
proof (induction ms rule: rev_induct)
  case Nil
  show ?case by (simp add: patch_set_def)
next
  case (snoc m ms)
  then show ?case by (simp add: add_patch_eq patch_set_snoc)
qed

lemma finite_patch_set: "finite (patch_set ms)"
proof -
  have "patch_set ms \<subseteq> (\<lambda>m. the (version_patch m)) ` set ms"
    by (force simp: patch_set_def)
  then show ?thesis
    by (rule finite_subset) simp
qed

lemma patches_closed_form:
  "get_available_patches ms = take 5 (rev (sorted_list_of_set (patch_set ms)))"
  by (cases "ms = []") (simp_all add: get_available_patches_def foldl_add_patch slice_to_def patch_set_def)

lemma patch_of_two_part:
  assumes "patch_of v = Some p"
  shows "\<exists>a b. p = a @ ''.'' @ b \<and> CHR ''.'' \<notin> set a \<and> CHR ''.'' \<notin> set b"
proof -
  let ?a = "takeWhile (\<lambda>c. c \<noteq> CHR ''.'') v"
  let ?b = "takeWhile (\<lambda>c. c \<noteq> CHR ''.'') (tl (dropWhile (\<lambda>c. c \<noteq> CHR ''.'') v))"
  have "p = ?a @ ''.'' @ ?b"
    using assms by (auto simp: patch_of_def split: if_splits)
  moreover have "CHR ''.'' \<notin> set ?a" "CHR ''.'' \<notin> set ?b"
    by (auto dest: set_takeWhileD)
  ultimately show ?thesis by blast
qed

subsection \<open>Available patches\<close>

text \<open>
  Claim C7. \<^verbatim>\<open>get_available_patches\<close> returns the patches of its matches (the first
  two dot-separated segments of each version string; a match whose version has fewer
  than two segments, or none, gives no patch), without repetition, in descending order
  of strings, cut to five: its length is the smaller of 5 and the number of distinct
  patches, every patch left out is below every patch returned, and every entry is two
  strings without a dot joined by a dot. An empty list of matches gives an empty
  list. The order is that of strings: \<open>14.9\<close> comes before \<open>14.10\<close>.
\<close>

theorem available_patches_top5:
  "get_available_patches ms = take 5 (rev (sorted_list_of_set (patch_set ms)))
   \<and> length (get_available_patches ms) = min 5 (card (patch_set ms))
   \<and> distinct (get_available_patches ms)
   \<and> sorted_wrt (\<lambda>p q. q < p) (get_available_patches ms)
   \<and> set (get_available_patches ms) \<subseteq> patch_set ms
   \<and> (\<forall>p \<in> patch_set ms - set (get_available_patches ms).
        \<forall>q \<in> set (get_available_patches ms). p < q)
   \<and> (\<forall>p \<in> set (get_available_patches ms).
        \<exists>a b. p = a @ ''.'' @ b \<and> CHR ''.'' \<notin> set a \<and> CHR ''.'' \<notin> set b)
   \<and> get_available_patches [] = []
   \<and> get_available_patches
        [m1\<lparr>gameVersion := Some ''14.9.1.1''\<rparr>, m2\<lparr>gameVersion := Some ''14.10.1.1''\<rparr>]
      = [''14.9'', ''14.10'']"
proof -
  define L where "L = rev (sorted_list_of_set (patch_set ms))"
  have r: "get_available_patches ms = take 5 L"
    by (simp add: patches_closed_form L_def)
  have setL: "set L = patch_set ms"
    by (simp add: L_def finite_patch_set)
  have dL: "distinct L"
    by (simp add: L_def)
  have sL: "sorted_wrt (\<lambda>p q. q < p) L"
    by (simp add: L_def sorted_wrt_rev strict_sorted_list_of_set)
  have lL: "length L = card (patch_set ms)"
    by (simp add: L_def)
  have 2: "length (take 5 L) = min 5 (card (patch_set ms))"
    by (simp add: lL min.commute)
  have 3: "distinct (take 5 L)"
    using dL by simp
  have 4: "sorted_wrt (\<lambda>p q. q < p) (take 5 L)"
    using sL by (rule sorted_wrt_take)
  have 5: "set (take 5 L) \<subseteq> patch_set ms"
    using setL set_take_subset by fastforce
  have "sorted_wrt (\<lambda>p q. q < p) (take 5 L @ drop 5 L)"
    using sL by simp
  then have "\<forall>q\<in>set (take 5 L). \<forall>p\<in>set (drop 5 L). p < q"
    unfolding sorted_wrt_append by blast
  moreover have "patch_set ms - set (take 5 L) \<subseteq> set (drop 5 L)"
    using setL by (metis Diff_subset_conv append_take_drop_id set_append Un_commute subset_refl)
  ultimately have 6: "\<forall>p \<in> patch_set ms - set (take 5 L). \<forall>q \<in> set (take 5 L). p < q"
    by blast
  have 7: "\<forall>p \<in> set (take 5 L). \<exists>a b. p = a @ ''.'' @ b \<and> CHR ''.'' \<notin> set a \<and> CHR ''.'' \<notin> set b"
  proof
    fix p assume "p \<in> set (take 5 L)"
    with 5 have "p \<in> patch_set ms" by blast
    then obtain m v where "patch_of v = Some p"
      by (auto simp: patch_set_def version_patch_def split: option.splits)
    then show "\<exists>a b. p = a @ ''.'' @ b \<and> CHR ''.'' \<notin> set a \<and> CHR ''.'' \<notin> set b"
      by (rule patch_of_two_part)
  qed
  have 8: "get_available_patches [] = []"
    by (simp add: get_available_patches_def)
  have "patch_set [m1\<lparr>gameVersion := Some ''14.9.1.1''\<rparr>, m2\<lparr>gameVersion := Some ''14.10.1.1''\<rparr>]
      = {''14.9'', ''14.10''}"
    by (auto simp: patch_set_def version_patch_def patch_of_def)
  then have 9: "get_available_patches
        [m1\<lparr>gameVersion := Some ''14.9.1.1''\<rparr>, m2\<lparr>gameVersion := Some ''14.10.1.1''\<rparr>]
      = [''14.9'', ''14.10'']"
    by (simp add: patches_closed_form)
  show ?thesis
    unfolding r using 2 3 4 5 6 7 8 9 L_def by blast
qed

theorem available_patches_top5_witness:
  "get_available_patches version_samples = [''14.9'', ''14.3'', ''14.2'', ''14.10'', ''14.1'']
   \<and> ''13.24'' \<in> patch_set version_samples - set (get_available_patches version_samples)
   \<and> ''14.1'' \<in> set (get_available_patches version_samples)
   \<and> ''13.24'' < ''14.1''
   \<and> (\<exists>a b. ''14.1'' = a @ ''.'' @ b \<and> CHR ''.'' \<notin> set a \<and> CHR ''.'' \<notin> set b)"
proof -
  note t = available_patches_top5 [of version_samples]
  have ps: "patch_set version_samples = {''14.9'', ''14.10'', ''14.1'', ''13.24'', ''14.2'', ''14.3''}"
    by (auto simp: patch_set_def version_samples_def version_patch_def patch_of_def
        sample_match_def)
  have r: "get_available_patches version_samples = [''14.9'', ''14.3'', ''14.2'', ''14.10'', ''14.1'']"
    using t by (simp add: ps)
  have out: "''13.24'' \<in> patch_set version_samples - set (get_available_patches version_samples)"
    by (simp add: ps r)
  have inn: "''14.1'' \<in> set (get_available_patches version_samples)"
    by (simp add: r)
  have lt: "''13.24'' < ''14.1''"
    using t out inn by blast
  have two: "\<exists>a b. ''14.1'' = a @ ''.'' @ b \<and> CHR ''.'' \<notin> set a \<and> CHR ''.'' \<notin> set b"
    using t inn by blast
  show ?thesis
    using r out inn lt two by blast
qed

subsection \<open>Helper lemmas: the set of queue ids, \<^verbatim>\<open>str\<close> and \<^verbatim>\<open>int\<close>\<close>

lemma add_queue_id_eq:
  "add_queue_id S m = (case queueId m of Val q \<Rightarrow> insert q S | _ \<Rightarrow> S)"
  by (cases "queueId m") (simp_all add: add_queue_id_def get_or_none_def)

lemma queue_set_snoc:
  "queue_set (ms @ [m]) = (case queueId m of Val q \<Rightarrow> insert q (queue_set ms) | _ \<Rightarrow> queue_set ms)"
  by (auto simp: queue_set_def split: field.splits)

lemma foldl_add_queue_id: "foldl add_queue_id {} ms = queue_set ms"
proof (induction ms rule: rev_induct)
  case Nil
  show ?case by (simp add: queue_set_def)
next
  case (snoc m ms)
  then show ?case by (simp add: add_queue_id_eq queue_set_snoc)
qed

lemma finite_queue_set: "finite (queue_set ms)"
proof -
  have "queue_set ms \<subseteq> (\<lambda>m. case queueId m of Val q \<Rightarrow> q | _ \<Rightarrow> 0) ` set ms"
    by (force simp: queue_set_def)
  then show ?thesis
    by (rule finite_subset) simp
qed

lemma modes_closed_form:
  "get_available_modes ms = map mode_of (sorted_list_of_set (queue_set ms))"
  by (cases "ms = []") (simp_all add: get_available_modes_def foldl_add_queue_id queue_set_def)

lemma digits_from_all:
  "\<forall>c\<in>set ds. is_digit c \<Longrightarrow> digits_from acc ds = Some (foldl (\<lambda>a c. a * 10 + digit_of c) acc ds)"
  by (induction acc ds rule: digits_from.induct) auto

lemma unsigned_int_digits:
  "ds \<noteq> [] \<Longrightarrow> \<forall>c\<in>set ds. is_digit c \<Longrightarrow> unsigned_int ds = Some (digits_value ds)"
  by (cases ds) (simp_all add: unsigned_int_def digits_from_all digits_value_def)

lemma digit_char: "d < 10 \<Longrightarrow> is_digit (char_of (48 + d)) \<and> digit_of (char_of (48 + d)) = int d"
  for d :: nat
  by (simp add: is_digit_def digit_of_def)

lemma decimal_digits: "decimal n \<noteq> [] \<and> (\<forall>c\<in>set (decimal n). is_digit c) \<and> digits_value (decimal n) = int n"
proof (induction n rule: decimal.induct)
  case (1 n)
  show ?case
  proof (cases "n < 10")
    case True
    then show ?thesis
      by (subst (1 2 3) decimal.simps) (simp add: digit_char digits_value_def)
  next
    case False
    have m: "n mod 10 < 10" by simp
    from False 1 have ih: "decimal (n div 10) \<noteq> [] \<and> (\<forall>c\<in>set (decimal (n div 10)). is_digit c)
        \<and> digits_value (decimal (n div 10)) = int (n div 10)"
      by simp
    have e: "decimal n = decimal (n div 10) @ [char_of (48 + n mod 10)]"
      using False by (subst decimal.simps) simp
    have "digits_value (decimal n) = int (n div 10) * 10 + int (n mod 10)"
      using ih digit_char [OF m] by (simp add: e digits_value_def)
    also have "\<dots> = int n"
      by (simp add: zdiv_int zmod_int)
    finally show ?thesis
      using ih digit_char [OF m] by (simp add: e)
  qed
qed

lemma digit_not_space: "is_digit c \<Longrightarrow> \<not> is_space c"
  by (auto simp: is_digit_def is_space_def)

lemma py_strip_id:
  assumes "s \<noteq> []" and "\<not> is_space (hd s)" and "\<not> is_space (last s)"
  shows "py_strip s = s"
proof -
  have "dropWhile is_space s = s"
    using assms by (cases s) auto
  moreover have "dropWhile is_space (rev s) = rev s"
    using assms by (cases s rule: rev_cases) auto
  ultimately show ?thesis
    by (simp add: py_strip_def)
qed

lemma digit_not_sign: "is_digit c \<Longrightarrow> c \<noteq> CHR ''-'' \<and> c \<noteq> CHR ''+''"
  by (auto simp: is_digit_def)

lemma utf8_decode_ascii:
  "\<forall>c\<in>set s. (of_char c :: nat) < 128 \<Longrightarrow> utf8_decode s = map of_char s"
  by (induction s) (simp_all add: Let_def)

lemma to_ascii_id:
  assumes "\<forall>c\<in>set s. (of_char c :: nat) < 127"
  shows "to_ascii s = s"
proof -
  have "utf8_decode s = map of_char s"
    using assms by (intro utf8_decode_ascii) auto
  moreover have "map ascii_of (map of_char s) = s"
    using assms by (induction s) (simp_all add: ascii_of_def)
  ultimately show ?thesis
    by (simp add: to_ascii_def)
qed

lemma digit_ascii: "is_digit c \<Longrightarrow> (of_char c :: nat) < 127"
  by (simp add: is_digit_def)

lemma py_int_decimal: "py_int (decimal n) = Some (int n)"
proof -
  obtain c cs where d: "decimal n = c # cs"
    using decimal_digits [of n] by (cases "decimal n") auto
  have dig: "\<forall>x\<in>set (decimal n). is_digit x"
    using decimal_digits by blast
  moreover have "decimal n \<noteq> []"
    using d by simp
  ultimately have "is_digit (hd (decimal n))" "is_digit (last (decimal n))"
    using hd_in_set last_in_set by blast+
  then have "py_strip (decimal n) = decimal n"
    using d by (intro py_strip_id) (auto dest: digit_not_space)
  moreover have "c \<noteq> CHR ''-'' \<and> c \<noteq> CHR ''+''"
    using dig d by (intro digit_not_sign) simp
  moreover have "unsigned_int (decimal n) = Some (int n)"
    using decimal_digits [of n] unsigned_int_digits by metis
  moreover have "to_ascii (decimal n) = decimal n"
    using dig by (intro to_ascii_id) (auto dest: digit_ascii)
  ultimately show ?thesis
    using d by (simp add: py_int_def)
qed

lemma py_int_py_str: "py_int (py_str q) = Some q"
proof (cases "q < 0")
  case False
  then show ?thesis
    by (simp add: py_str_def py_int_decimal)
next
  case True
  let ?s = "CHR ''-'' # decimal (nat (- q))"
  have dig: "decimal (nat (- q)) \<noteq> []" "\<forall>x\<in>set (decimal (nat (- q))). is_digit x"
    using decimal_digits by blast+
  then have "is_digit (last ?s)"
    using last_in_set [of "decimal (nat (- q))"] by simp
  then have "py_strip ?s = ?s"
    by (intro py_strip_id) (auto dest: digit_not_space simp: is_space_def simp del: last.simps)
  moreover have "unsigned_int (decimal (nat (- q))) = Some (int (nat (- q)))"
    using decimal_digits [of "nat (- q)"] unsigned_int_digits by metis
  moreover have "to_ascii ?s = ?s"
    using dig by (intro to_ascii_id) (auto dest: digit_ascii)
  ultimately show ?thesis
    using True by (simp add: py_str_def py_int_def)
qed

lemma map_of_QUEUE_NAMES_None:
  "q \<notin> {420, 440, 400, 430, 450, 1700, 1900} \<Longrightarrow> map_of QUEUE_NAMES q = None"
  by (simp add: QUEUE_NAMES_def)

lemma digit_chars:
  "char_of (48::nat) = CHR ''0''" "char_of (49::nat) = CHR ''1''" "char_of (50::nat) = CHR ''2''"
  "char_of (51::nat) = CHR ''3''" "char_of (52::nat) = CHR ''4''" "char_of (53::nat) = CHR ''5''"
  "char_of (54::nat) = CHR ''6''" "char_of (55::nat) = CHR ''7''" "char_of (56::nat) = CHR ''8''"
  "char_of (57::nat) = CHR ''9''"
  by (simp_all add: char_of_def bit_0)

subsection \<open>Available modes\<close>



subsection \<open>Helper lemmas: the aggregates in closed form\<close>

lemma set_first_seen [simp]: "set (first_seen xs) = set xs"
  by (induction xs) auto

lemma distinct_first_seen [simp]: "distinct (first_seen xs)"
  by (induction xs) auto

lemma first_seen_snoc:
  "first_seen (xs @ [x]) = (if x \<in> set xs then first_seen xs else first_seen xs @ [x])"
  by (induction xs) auto

lemma map_of_keyed: "map_of (map (\<lambda>c. (c, g c)) cs) k = (if k \<in> set cs then Some (g k) else None)"
  by (induction cs) auto

lemma map_entry_keyed:
  "distinct cs \<Longrightarrow> AList.map_entry k f (map (\<lambda>c. (c, g c)) cs)
     = map (\<lambda>c. (c, if c = k then f (g c) else g c)) cs"
  by (induction cs) auto

lemma map_entry_fresh:
  "k \<notin> set cs \<Longrightarrow> AList.map_entry k f (map (\<lambda>c. (c, g c)) cs @ [(k, v)])
     = map (\<lambda>c. (c, g c)) cs @ [(k, f v)]"
  by (induction cs) auto

lemma summarize_snoc:
  "summarize c (g @ [m]) = add_match (myData m) (summarize c g)"
  by (simp add: summarize_def add_match_def)

lemma summarize_Nil: "summarize c [] = new_aggregate c"
  by (simp add: summarize_def new_aggregate_def)

lemma summarize_single: "summarize c [m] = add_match (myData m) (new_aggregate c)"
  by (simp add: summarize_def add_match_def new_aggregate_def)

lemma group_of_absent: "c \<notin> set (champions ms) \<Longrightarrow> group_of c ms = []"
  by (induction ms) (auto simp: group_of_def champions_def)

lemma aggregates_closed_form:
  "foldl accumulate [] ms
     = map (\<lambda>c. (c, summarize c (group_of c ms))) (first_seen (champions ms))"
proof (induction ms rule: rev_induct)
  case Nil
  show ?case by (simp add: champions_def)
next
  case (snoc m ms)
  let ?c = "championName (myData m)"
  let ?cs = "first_seen (champions ms)"
  let ?old = "map (\<lambda>c. (c, summarize c (group_of c ms))) ?cs"
  let ?new = "map (\<lambda>c. (c, summarize c (group_of c (ms @ [m])))) ?cs"
  have start: "foldl accumulate [] (ms @ [m]) = accumulate ?old m"
    using snoc by simp
  show ?case
  proof (cases "?c \<in> set (champions ms)")
    case True
    have "accumulate ?old m
        = map (\<lambda>c. (c, if c = ?c then add_match (myData m) (summarize c (group_of c ms))
                        else summarize c (group_of c ms))) ?cs"
      using True by (simp add: accumulate_def map_of_keyed map_entry_keyed Let_def)
    also have "\<dots> = ?new"
      by (rule map_cong) (auto simp: group_of_def summarize_snoc)
    also have "\<dots> = map (\<lambda>c. (c, summarize c (group_of c (ms @ [m]))))
                     (first_seen (champions (ms @ [m])))"
      using True by (simp add: champions_def first_seen_snoc)
    finally show ?thesis
      using start by simp
  next
    case False
    have step: "accumulate ?old m = ?old @ [(?c, add_match (myData m) (new_aggregate ?c))]"
      using False by (simp add: accumulate_def map_of_keyed map_entry_fresh Let_def)
    have same: "?old = ?new"
      using False by (intro map_cong) (auto simp: group_of_def)
    have "group_of ?c ms = []"
      using False by (rule group_of_absent)
    then have last: "add_match (myData m) (new_aggregate ?c) = summarize ?c (group_of ?c (ms @ [m]))"
      by (simp add: group_of_def summarize_single)
    have "accumulate ?old m = ?new @ [(?c, summarize ?c (group_of ?c (ms @ [m])))]"
      unfolding step last using same by simp
    also have "\<dots> = map (\<lambda>c. (c, summarize c (group_of c (ms @ [m]))))
                     (first_seen (champions (ms @ [m])))"
      using False by (simp add: champions_def first_seen_snoc)
    finally show ?thesis
      using start by simp
  qed
qed

lemma py_round_lower: "of_int a \<le> x \<Longrightarrow> a \<le> py_round x"
proof -
  assume "of_int a \<le> x"
  then have "a \<le> \<lfloor>x\<rfloor>" by (simp add: le_floor_iff)
  then show ?thesis by (auto simp: py_round_def Let_def)
qed

lemma py_round_upper: "x \<le> of_int b \<Longrightarrow> py_round x \<le> b"
proof -
  assume h: "x \<le> of_int b"
  show ?thesis
  proof (cases "x = of_int b")
    case True
    then show ?thesis by (simp add: py_round_def)
  next
    case False
    with h have "x < of_int b" by simp
    then have "\<lfloor>x\<rfloor> < b" by (simp add: floor_less_iff)
    then show ?thesis by (auto simp: py_round_def Let_def)
  qed
qed

lemma win_rate_range:
  assumes "0 \<le> w" and "w \<le> n" and "0 < n"
  shows "0 \<le> py_round_nd (of_int w / of_int n * 100) 1
       \<and> py_round_nd (of_int w / of_int n * 100) 1 \<le> 100"
proof -
  let ?x = "(of_int w / of_int n * 100 :: rat) * 10 ^ 1"
  have q: "0 \<le> (of_int w / of_int n :: rat)" "(of_int w / of_int n :: rat) \<le> 1"
    using assms by (simp_all add: divide_le_eq)
  then have "of_int 0 \<le> ?x" "?x \<le> of_int 1000"
    by simp_all
  then have "0 \<le> py_round ?x" "py_round ?x \<le> 1000"
    using py_round_lower [of 0 ?x] py_round_upper [of ?x 1000] by simp_all
  then show ?thesis
    by (simp add: py_round_nd_def divide_le_eq)
qed

lemma group_size: "length (group_of c ms) = count_list (champions ms) c"
  by (induction ms) (auto simp: group_of_def champions_def)

lemma group_sizes: "sum_list (map (\<lambda>c. length (group_of c ms)) (first_seen (champions ms))) = length ms"
proof -
  have "sum_list (map (count_list (champions ms)) (first_seen (champions ms)))
      = sum (count_list (champions ms)) (set (first_seen (champions ms)))"
    by (rule sum_list_distinct_conv_sum_set) simp
  also have "\<dots> = length (champions ms)"
    by (simp add: sum_count_set)
  finally show ?thesis
    by (simp add: group_size champions_def)
qed

lemma stat_for_fields:
  "stat_championName (stat_for fl c) = c"
  "games (stat_for fl c) = int (count_list (champions fl) c)"
  "wins (stat_for fl c) = int (length (filter (\<lambda>m. win (myData m)) (group_of c fl)))"
  "losses (stat_for fl c) = games (stat_for fl c) - wins (stat_for fl c)"
  by (simp_all add: stat_for_def stat_of_def summarize_def Let_def group_size)

lemma stat_for_win_rate:
  assumes "c \<in> set (champions fl)"
  shows "0 \<le> winRate (stat_for fl c) \<and> winRate (stat_for fl c) \<le> 100"
proof -
  let ?g = "group_of c fl"
  have pos: "0 < int (length ?g)"
    using assms count_list_0_iff [of "champions fl" c] by (simp add: group_size)
  have le: "int (length (filter (\<lambda>m. win (myData m)) ?g)) \<le> int (length ?g)"
    by simp
  have "winRate (stat_for fl c)
      = py_round_nd (of_int (int (length (filter (\<lambda>m. win (myData m)) ?g)))
                       / of_int (int (length ?g)) * 100) 1"
    using pos by (simp add: stat_for_def stat_of_def summarize_def Let_def)
  then show ?thesis
    using win_rate_range [OF _ le pos] by simp
qed

lemma stats_closed_form:
  assumes "filter_matches now ms period mode = Inr fl"
  shows "calculate_champion_stats now ms period mode
    = Inr (sort_key (\<lambda>s. - games s) (map (stat_for fl) (first_seen (champions fl))))"
proof (cases "fl = []")
  case True
  with assms show ?thesis
    by (simp add: calculate_champion_stats_def champions_def)
next
  case False
  have "map stat_of (foldl accumulate [] fl) = map (stat_for fl) (first_seen (champions fl))"
    by (simp add: aggregates_closed_form stat_for_def comp_def)
  with False assms show ?thesis
    by (simp add: calculate_champion_stats_def sorted_reverse_def)
qed

lemma sum_list_sort_key: "sum_list (map f (sort_key k xs)) = sum_list (map f xs)"
  for f :: "'a \<Rightarrow> int" and k :: "'a \<Rightarrow> int"
proof -
  have "mset (map f (sort_key k xs)) = mset (map f xs)"
    by simp
  then show ?thesis
    by (metis sum_mset_sum_list)
qed

subsection \<open>Helper lemmas: the statistics of the sample\<close>

lemma samples_unfiltered: "filter_matches now champion_samples ''all'' ''all'' = Inr champion_samples"
  by (simp add: filter_matches_def filter_elements_def period_filter_def mode_filter_def)

lemma samples_champions:
  "champions champion_samples = [''Lux'', ''Ahri'', ''Jinx'', ''Ahri'', ''Lux'']"
  by (simp add: champions_def champion_samples_def sample_match_def sample_data_def)

lemma samples_sorted:
  "calculate_champion_stats now champion_samples ''all'' ''all''
     = Inr (map (stat_for champion_samples) [''Lux'', ''Ahri'', ''Jinx''])"
  using stats_closed_form [OF samples_unfiltered, of now]
  by (simp add: samples_champions stat_for_fields)

lemma samples_wins:
  "map wins (map (stat_for champion_samples) [''Lux'', ''Ahri'', ''Jinx'']) = [1, 1, 1]"
  by (simp add: stat_for_fields group_of_def champion_samples_def sample_match_def sample_data_def)

lemma samples_games:
  "map games (map (stat_for champion_samples) [''Lux'', ''Ahri'', ''Jinx'']) = [2, 2, 1]"
  by (simp add: stat_for_fields samples_champions)

lemma samples_names:
  "map stat_championName (map (stat_for champion_samples) [''Lux'', ''Ahri'', ''Jinx''])
     = [''Lux'', ''Ahri'', ''Jinx'']"
  by (simp add: stat_for_fields)

lemma stat_for_win_rate_eq:
  "winRate (stat_for fl c)
     = (if 0 < games (stat_for fl c)
        then py_round_nd (of_int (wins (stat_for fl c)) / of_int (games (stat_for fl c)) * 100) 1
        else py_round_nd 0 1)"
  by (simp add: stat_for_def stat_of_def Let_def)

lemma samples_win_rates:
  "map winRate (map (stat_for champion_samples) [''Lux'', ''Ahri'', ''Jinx'']) = [50, 50, 100]"
  using samples_wins samples_games
  by (simp add: stat_for_win_rate_eq py_round_nd_def py_round_def)

subsection \<open>Helper lemmas: what the filter reads of the clock\<close>

lemma period_filter_clock:
  "\<not> clock_relative period \<Longrightarrow> period_filter deref now1 period xs = period_filter deref now2 period xs"
  "(period = ''this_week'' \<or> period = ''last_week'') \<Longrightarrow> monday_start now1 = monday_start now2
     \<Longrightarrow> period_filter deref now1 period xs = period_filter deref now2 period xs"
  "(period = ''last_30_days'' \<or> period = ''last_7_days'') \<Longrightarrow> timestamp_ms now1 = timestamp_ms now2
     \<Longrightarrow> period_filter deref now1 period xs = period_filter deref now2 period xs"
  by (auto simp: period_filter_def clock_relative_def)

lemma stats_of_filter:
  "filter_matches now1 ms1 period1 mode1 = filter_matches now2 ms2 period2 mode2
   \<Longrightarrow> calculate_champion_stats now1 ms1 period1 mode1
     = calculate_champion_stats now2 ms2 period2 mode2"
  by (simp add: calculate_champion_stats_def)

lemma filter_of_period_filter:
  "period_filter (\<lambda>m. m) now1 period ms = period_filter (\<lambda>m. m) now2 period ms
   \<Longrightarrow> filter_matches now1 ms period mode = filter_matches now2 ms period mode"
  by (simp add: filter_matches_def filter_elements_def)

lemma samples_created: "\<forall>m\<in>set champion_samples. gameCreation m = 1699900000000"
  by (simp add: champion_samples_def sample_match_def)

subsection \<open>Invariants of the aggregates\<close>



subsection \<open>Order of the aggregates\<close>



subsection \<open>Helper lemmas: the store\<close>

lemma prefix_nth: "prefix s s' \<Longrightarrow> r < length s \<Longrightarrow> s' ! r = s ! r"
  by (auto simp: prefix_def nth_append)

lemma prefix_alloc: "prefix s0 s \<Longrightarrow> prefix s0 (snd (alloc ob s))"
  by (simp add: alloc_def prefix_prefix)

lemma prefix_update: "prefix s0 s \<Longrightarrow> length s0 \<le> a \<Longrightarrow> prefix s0 (s[a := ob])"
  by (auto simp: prefix_def list_update_append)

lemma alloc_fst: "fst (alloc ob s) = length s"
  by (simp add: alloc_def)

lemma alloc_length: "length (snd (alloc ob s)) = Suc (length s)"
  by (simp add: alloc_def)

lemma list_append_prefix:
  "prefix s0 s \<Longrightarrow> length s0 \<le> l \<Longrightarrow> prefix s0 (list_append l r s)"
  by (simp add: list_append_def prefix_update split: option.splits)

lemma list_append_length [simp]: "length (list_append l r s) = length s"
  by (simp add: list_append_def split: option.splits)

lemma list_sort_prefix:
  "prefix s0 s \<Longrightarrow> length s0 \<le> l \<Longrightarrow> prefix s0 (list_sort_by_games l s)"
  by (simp add: list_sort_by_games_def prefix_update split: option.splits)

lemma list_sort_length [simp]: "length (list_sort_by_games l s) = length s"
  by (simp add: list_sort_by_games_def split: option.splits)

lemma emit_stat_prefix:
  "prefix s0 s \<Longrightarrow> length s0 \<le> l \<Longrightarrow> prefix s0 (emit_stat l s e)"
  by (auto simp: emit_stat_def alloc_def prefix_prefix intro!: list_append_prefix
      split: option.splits)

lemma emit_stat_length: "length s \<le> length (emit_stat l s e)"
  by (simp add: emit_stat_def alloc_def split: option.splits)

lemma emit_stats_prefix:
  "prefix s0 s \<Longrightarrow> length s0 \<le> l \<Longrightarrow> prefix s0 (foldl (emit_stat l) s es)"
  by (induction es arbitrary: s) (simp_all add: emit_stat_prefix)

lemma emit_stats_length: "length s \<le> length (foldl (emit_stat l) s es)"
proof (induction es arbitrary: s)
  case Nil
  show ?case by simp
next
  case (Cons e es)
  have "length s \<le> length (emit_stat l s e)"
    by (rule emit_stat_length)
  also have "\<dots> \<le> length (foldl (emit_stat l) (emit_stat l s e) es)"
    by (rule Cons.IH)
  finally show ?case by simp
qed

lemma emit_mode_prefix:
  "prefix s0 s \<Longrightarrow> length s0 \<le> l \<Longrightarrow> prefix s0 (emit_mode l s q)"
  by (auto simp: emit_mode_def alloc_def prefix_prefix intro!: list_append_prefix)

lemma emit_mode_length: "length s \<le> length (emit_mode l s q)"
  by (simp add: emit_mode_def alloc_def)

lemma emit_modes_prefix:
  "prefix s0 s \<Longrightarrow> length s0 \<le> l \<Longrightarrow> prefix s0 (foldl (emit_mode l) s qs)"
  by (induction qs arbitrary: s) (simp_all add: emit_mode_prefix)

lemma emit_modes_length: "length s \<le> length (foldl (emit_mode l) s qs)"
proof (induction qs arbitrary: s)
  case Nil
  show ?case by simp
next
  case (Cons q qs)
  have "length s \<le> length (emit_mode l s q)"
    by (rule emit_mode_length)
  also have "\<dots> \<le> length (foldl (emit_mode l) (emit_mode l s q) qs)"
    by (rule Cons.IH)
  finally show ?case by simp
qed

text \<open>The first loop writes to the dictionaries it created only.\<close>

lemma accumulate_store_own:
  assumes "own_aggregates s0 st"
  shows "own_aggregates s0 (accumulate_store st r)"
proof (cases "match_at (snd st) r")
  case None
  with assms show ?thesis
    by (simp add: accumulate_store_def)
next
  case (Some m)
  let ?c = "championName (myData m)"
  define inserted where "inserted =
      (if map_of (fst st) ?c = None
       then (let (a, s') = alloc (AggObj (new_aggregate ?c)) (snd st)
             in (fst st @ [(?c, a)], s'))
       else (fst st, snd st))"
  have len: "length s0 \<le> length (snd st)"
    using assms by (simp add: own_aggregates_def prefix_length_le)
  have ins: "own_aggregates s0 inserted"
    using assms len
    by (auto simp: inserted_def own_aggregates_def alloc_def prefix_prefix)
  have acc: "accumulate_store st r =
      (case map_of (fst inserted) ?c of
         None \<Rightarrow> inserted
       | Some a \<Rightarrow>
           (case agg_at (snd inserted) a of
              None \<Rightarrow> inserted
            | Some agg \<Rightarrow> (fst inserted, (snd inserted)[a := AggObj (add_match (myData m) agg)])))"
    unfolding accumulate_store_def inserted_def Let_def Some option.case by (rule refl)
  show ?thesis
  proof (cases "map_of (fst inserted) ?c")
    case None
    with acc ins show ?thesis by simp
  next
    case a: (Some a)
    then have "(?c, a) \<in> set (fst inserted)"
      by (rule map_of_SomeD)
    with ins have "length s0 \<le> a"
      by (auto simp: own_aggregates_def)
    with ins acc a show ?thesis
      by (auto simp: own_aggregates_def prefix_update split: option.splits)
  qed
qed

lemma accumulate_loop_own:
  "own_aggregates s0 st \<Longrightarrow> own_aggregates s0 (foldl accumulate_store st rs)"
  by (induction rs arbitrary: st) (simp_all add: accumulate_store_own)

lemma accumulate_loop_prefix: "prefix s (snd (foldl accumulate_store ([], s) rs))"
  using accumulate_loop_own [of s "([], s)" rs] by (simp add: own_aggregates_def)

text \<open>Reading the argument in a store that extends the old one.\<close>

lemma match_at_prefix: "prefix s s' \<Longrightarrow> match_at s r = Some m \<Longrightarrow> match_at s' r = Some m"
  using prefix_length_le [of s s']
  by (auto simp: match_at_def prefix_nth split: if_splits)

lemma list_at_prefix: "prefix s s' \<Longrightarrow> list_at s l = Some refs \<Longrightarrow> list_at s' l = Some refs"
  using prefix_length_le [of s s']
  by (auto simp: list_at_def prefix_nth split: if_splits)

lemma those_cong:
  "those (map f rs) = Some items \<Longrightarrow> (\<And>r v. r \<in> set rs \<Longrightarrow> f r = Some v \<Longrightarrow> g r = Some v)
     \<Longrightarrow> those (map g rs) = Some items"
proof (induction rs arbitrary: items)
  case Nil
  then show ?case by simp
next
  case (Cons r rs)
  from Cons.prems(1) obtain v vs where v: "f r = Some v" "those (map f rs) = Some vs" "items = v # vs"
    by (auto split: option.splits)
  have "g r = Some v"
    using Cons.prems(2) v(1) by simp
  moreover have "those (map g rs) = Some vs"
    using v(2) Cons.prems(2) by (intro Cons.IH) auto
  ultimately show ?case
    using v(3) by simp
qed

lemma load_matches_prefix:
  assumes "prefix s s'" and "load_matches s a = Some items"
  shows "load_matches s' a = Some items"
proof -
  from assms(2) obtain refs where refs: "list_at s a = Some refs"
      "those (map (\<lambda>r. map_option (Pair r) (match_at s r)) refs) = Some items"
    by (auto simp: load_matches_def split: option.splits)
  have "those (map (\<lambda>r. map_option (Pair r) (match_at s' r)) refs) = Some items"
    using refs(2)
  proof (rule those_cong)
    fix r v assume "map_option (Pair r) (match_at s r) = Some v"
    then obtain m where "match_at s r = Some m" "v = (r, m)"
      by auto
    with assms(1) show "map_option (Pair r) (match_at s' r) = Some v"
      by (simp add: match_at_prefix)
  qed
  with refs(1) assms(1) show ?thesis
    by (simp add: load_matches_def list_at_prefix)
qed

lemma unchanged_prefix: "prefix s s' \<Longrightarrow> load_matches s a \<noteq> None \<Longrightarrow> unchanged s a s'"
  by (auto simp: unchanged_def load_matches_prefix)

lemma unchanged_refl: "unchanged s a s"
  by (simp add: unchanged_def)

lemma alloc_result:
  "(case (let (l, s') = alloc ob s in (Inr l, s')) of (res, s') \<Rightarrow>
      prefix s s' \<and> new_in s res s')"
  by (simp add: alloc_def new_in_def)

lemma filter_store_frame:
  "case filter_matches_store now a period mode s of (res, s') \<Rightarrow> unchanged s a s' \<and> new_in s res s'"
proof (cases "load_matches s a")
  case None
  then show ?thesis
    by (simp add: filter_matches_store_def unchanged_refl new_in_def)
next
  case (Some items)
  show ?thesis
  proof (cases "filter_elements snd now items period mode")
    case (Inl e)
    with Some show ?thesis
      by (simp add: filter_matches_store_def unchanged_refl new_in_def)
  next
    case (Inr filtered)
    with Some show ?thesis
      by (simp add: filter_matches_store_def alloc_def new_in_def unchanged_prefix)
  qed
qed

lemma recent_store_frame:
  "case get_recent_matches_store a n s of (res, s') \<Rightarrow> unchanged s a s' \<and> new_in s res s'"
proof (cases "load_matches s a")
  case None
  then show ?thesis
    by (simp add: get_recent_matches_store_def unchanged_refl new_in_def)
next
  case (Some items)
  then show ?thesis
    by (simp add: get_recent_matches_store_def alloc_def new_in_def unchanged_prefix)
qed

lemma patches_store_frame:
  "case get_available_patches_store a s of (res, s') \<Rightarrow> unchanged s a s' \<and> new_in s res s'"
proof (cases "load_matches s a")
  case None
  then show ?thesis
    by (simp add: get_available_patches_store_def unchanged_refl new_in_def)
next
  case (Some items)
  then show ?thesis
    by (simp add: get_available_patches_store_def alloc_def new_in_def unchanged_prefix)
qed

lemma modes_store_frame:
  "case get_available_modes_store a s of (res, s') \<Rightarrow> unchanged s a s' \<and> new_in s res s'"
proof (cases "load_matches s a")
  case None
  then show ?thesis
    by (simp add: get_available_modes_store_def unchanged_refl new_in_def)
next
  case (Some items)
  show ?thesis
  proof (cases "items = []")
    case True
    with Some show ?thesis
      by (simp add: get_available_modes_store_def alloc_def new_in_def unchanged_prefix)
  next
    case False
    define qs where "qs = sorted_list_of_set (foldl add_queue_id {} (map snd items))"
    define s2 where "s2 = foldl (emit_mode (length s)) (s @ [ListObj []]) qs"
    have r: "get_available_modes_store a s = (Inr (length s), s2)"
      using Some False by (simp add: get_available_modes_store_def alloc_def qs_def s2_def Let_def)
    have "prefix s s2"
      unfolding s2_def by (rule emit_modes_prefix) simp_all
    moreover have "length (s @ [ListObj []]) \<le> length s2"
      unfolding s2_def by (rule emit_modes_length)
    ultimately show ?thesis
      using Some by (simp add: r new_in_def unchanged_prefix)
  qed
qed

lemma stats_store_frame:
  "case calculate_champion_stats_store now a period mode s of (res, s') \<Rightarrow>
     unchanged s a s' \<and> new_in s res s'"
proof (cases "load_matches s a")
  case None
  then show ?thesis
    by (simp add: calculate_champion_stats_store_def unchanged_refl new_in_def)
next
  case (Some items)
  show ?thesis
  proof (cases "filter_elements snd now items period mode")
    case (Inl e)
    with Some show ?thesis
      by (simp add: calculate_champion_stats_store_def unchanged_refl new_in_def)
  next
    case (Inr filtered)
    show ?thesis
    proof (cases "filtered = []")
      case True
      with Some Inr show ?thesis
        by (simp add: calculate_champion_stats_store_def alloc_def new_in_def unchanged_prefix)
    next
      case False
      define st where "st = foldl accumulate_store ([], s) (map fst filtered)"
      define l where "l = length (snd st)"
      define s3 where "s3 = foldl (emit_stat l) (snd st @ [ListObj []]) (fst st)"
      define s4 where "s4 = list_sort_by_games l s3"
      have r: "calculate_champion_stats_store now a period mode s = (Inr l, s4)"
        using Some Inr False
        by (simp add: calculate_champion_stats_store_def alloc_def st_def l_def s3_def s4_def
            Let_def split: prod.splits)
      have p1: "prefix s (snd st)"
        unfolding st_def by (rule accumulate_loop_prefix)
      then have le: "length s \<le> l"
        by (simp add: l_def prefix_length_le)
      have "prefix s (snd st @ [ListObj []])"
        using p1 by (rule prefix_prefix)
      then have "prefix s s3"
        unfolding s3_def using le by (rule emit_stats_prefix)
      then have p4: "prefix s s4"
        unfolding s4_def using le by (rule list_sort_prefix)
      have "length (snd st @ [ListObj []]) \<le> length s3"
        unfolding s3_def by (rule emit_stats_length)
      then have "l < length s4"
        by (simp add: s4_def l_def)
      with p4 le Some show ?thesis
        by (simp add: r new_in_def unchanged_prefix)
    qed
  qed
qed

lemma comprehension_map:
  "comprehension cond (map f xs) = map_sum (\<lambda>e. e) (map f) (comprehension (\<lambda>x. cond (f x)) xs)"
  by (induction xs) (auto split: sum.splits)

lemma period_filter_map:
  "period_filter (\<lambda>m. m) now period (map deref xs)
     = map_sum (\<lambda>e. e) (map deref) (period_filter deref now period xs)"
  by (simp add: period_filter_def comprehension_map filter_map comp_def Let_def)

lemma mode_filter_map:
  "mode_filter (\<lambda>m. m) mode (map deref xs)
     = map_sum (\<lambda>e. e) (map deref) (mode_filter deref mode xs)"
  by (simp add: mode_filter_def comprehension_map split: option.splits)

lemma filter_elements_map:
  "filter_matches now (map deref xs) period mode
     = map_sum (\<lambda>e. e) (map deref) (filter_elements deref now xs period mode)"
  by (cases "period_filter deref now period xs")
    (simp_all add: filter_matches_def filter_elements_def period_filter_map mode_filter_map)

lemma insort_key_map:
  "insort_key k (f x) (map f xs) = map f (insort_key (\<lambda>x. k (f x)) x xs)"
  by (induction xs) simp_all

lemma sort_key_map: "sort_key k (map f xs) = map f (sort_key (\<lambda>x. k (f x)) xs)"
  by (induction xs) (simp_all add: insort_key_map)

lemma recent_elements_map:
  "get_recent_matches (map deref xs) n = map deref (recent_elements deref xs n)"
  by (simp add: get_recent_matches_def recent_elements_def sorted_reverse_def slice_to_def
      sort_key_map take_map)

lemma those_eq_Some: "those xs = Some ys \<longleftrightarrow> xs = map Some ys"
  by (induction xs arbitrary: ys) (auto split: option.splits)

lemma those_members:
  "those (map f rs) = Some items \<Longrightarrow> \<forall>e\<in>set items. \<exists>r\<in>set rs. f r = Some e"
  by (induction rs arbitrary: items) (fastforce split: option.splits)+

lemma load_matches_items:
  assumes "load_matches s a = Some items"
  shows "\<forall>e\<in>set items. match_at s (fst e) = Some (snd e)"
proof
  fix e assume "e \<in> set items"
  moreover from assms obtain refs
    where "those (map (\<lambda>r. map_option (Pair r) (match_at s r)) refs) = Some items"
    by (auto simp: load_matches_def split: option.splits)
  ultimately obtain r where "map_option (Pair r) (match_at s r) = Some e"
    using those_members by fastforce
  then show "match_at s (fst e) = Some (snd e)"
    by auto
qed

lemma load_new_list:
  assumes "\<forall>e\<in>set xs. match_at s (fst e) = Some (snd e)"
  shows "load_matches (s @ [ListObj (map fst xs)]) (length s) = Some xs"
proof -
  let ?s' = "s @ [ListObj (map fst xs)]"
  have "prefix s ?s'"
    by simp
  then have "\<forall>e\<in>set xs. match_at ?s' (fst e) = Some (snd e)"
    using assms match_at_prefix by blast
  then have "map (\<lambda>r. map_option (Pair r) (match_at ?s' r)) (map fst xs) = map Some xs"
    by (induction xs) auto
  then show ?thesis
    by (simp add: load_matches_def list_at_def those_eq_Some)
qed

lemma comprehension_subset: "comprehension cond xs = Inr ys \<Longrightarrow> set ys \<subseteq> set xs"
  by (induction xs arbitrary: ys) (auto split: sum.splits if_splits)

lemma filter_elements_subset:
  assumes "filter_elements deref now xs period mode = Inr ys"
  shows "set ys \<subseteq> set xs"
proof -
  from assms obtain zs where z: "period_filter deref now period xs = Inr zs"
      "mode_filter deref mode zs = Inr ys"
    by (auto simp: filter_elements_def split: sum.splits)
  have "set zs \<subseteq> set xs"
    using z(1) by (auto simp: period_filter_def Let_def dest: comprehension_subset split: if_splits)
  moreover have "set ys \<subseteq> set zs"
    using z(2) by (auto simp: mode_filter_def dest: comprehension_subset split: if_splits option.splits)
  ultimately show ?thesis
    by blast
qed

lemma recent_elements_subset: "set (recent_elements deref xs n) \<subseteq> set xs"
proof -
  have "set (take k (sort_key f xs)) \<subseteq> set xs" for k and f :: "'a \<Rightarrow> int"
    using set_take_subset [of k "sort_key f xs"] by simp
  then show ?thesis
    by (simp add: recent_elements_def sorted_reverse_def slice_to_def Let_def)
qed

lemma filter_store_result:
  assumes "load_matches s a = Some items"
  shows "(\<exists>e. filter_matches_store now a period mode s = (Inl e, s)
           \<and> filter_matches now (map snd items) period mode = Inl e)
       \<or> (\<exists>l s' ms. filter_matches_store now a period mode s = (Inr l, s')
           \<and> filter_matches now (map snd items) period mode = Inr ms
           \<and> map_option (map snd) (load_matches s' l) = Some ms)"
proof (cases "filter_elements snd now items period mode")
  case (Inl e)
  with assms show ?thesis
    by (simp add: filter_matches_store_def filter_elements_map)
next
  case (Inr filtered)
  then have "set filtered \<subseteq> set items"
    by (rule filter_elements_subset)
  then have "\<forall>e\<in>set filtered. match_at s (fst e) = Some (snd e)"
    using load_matches_items [OF assms] by blast
  then have "load_matches (s @ [ListObj (map fst filtered)]) (length s) = Some filtered"
    by (rule load_new_list)
  with assms Inr show ?thesis
    by (simp add: filter_matches_store_def filter_elements_map alloc_def)
qed

lemma recent_store_result:
  assumes "load_matches s a = Some items"
  shows "\<exists>l s'. get_recent_matches_store a n s = (Inr l, s')
           \<and> map_option (map snd) (load_matches s' l) = Some (get_recent_matches (map snd items) n)"
proof -
  let ?xs = "recent_elements snd items n"
  let ?s' = "s @ [ListObj (map fst ?xs)]"
  have "\<forall>e\<in>set ?xs. match_at s (fst e) = Some (snd e)"
    using load_matches_items [OF assms] recent_elements_subset [of snd items n] by blast
  then have "load_matches ?s' (length s) = Some ?xs"
    by (rule load_new_list)
  then have "map_option (map snd) (load_matches ?s' (length s)) = Some (map snd ?xs)"
    by simp
  moreover have "map snd ?xs = get_recent_matches (map snd items) n"
    by (rule recent_elements_map [symmetric])
  moreover have "get_recent_matches_store a n s = (Inr (length s), ?s')"
    using assms by (simp add: get_recent_matches_store_def alloc_def)
  ultimately show ?thesis
    by simp
qed

lemma patches_store_result:
  assumes "load_matches s a = Some items"
  shows "\<exists>l s'. get_available_patches_store a s = (Inr l, s')
           \<and> strings_at s' l = Some (get_available_patches (map snd items))"
  using assms by (simp add: get_available_patches_store_def alloc_def strings_at_def)

lemma at_append:
  "r < length s \<Longrightarrow> match_at (s @ t) r = match_at s r"
  "r < length s \<Longrightarrow> agg_at (s @ t) r = agg_at s r"
  "r < length s \<Longrightarrow> stat_at (s @ t) r = stat_at s r"
  "r < length s \<Longrightarrow> mode_at (s @ t) r = mode_at s r"
  "r < length s \<Longrightarrow> list_at (s @ t) r = list_at s r"
  by (simp_all add: match_at_def agg_at_def stat_at_def mode_at_def list_at_def nth_append)

lemma at_update:
  "r \<noteq> l \<Longrightarrow> match_at (s[l := ob]) r = match_at s r"
  "r \<noteq> l \<Longrightarrow> agg_at (s[l := ob]) r = agg_at s r"
  "r \<noteq> l \<Longrightarrow> stat_at (s[l := ob]) r = stat_at s r"
  "r \<noteq> l \<Longrightarrow> mode_at (s[l := ob]) r = mode_at s r"
  "r \<noteq> l \<Longrightarrow> list_at (s[l := ob]) r = list_at s r"
  by (simp_all add: match_at_def agg_at_def stat_at_def mode_at_def list_at_def)

lemma at_new:
  "agg_at (s @ [AggObj g]) (length s) = Some g"
  "stat_at (s @ [StatObj st]) (length s) = Some st"
  "mode_at (s @ [ModeObj md]) (length s) = Some md"
  "list_at (s @ [ListObj refs]) (length s) = Some refs"
  by (simp_all add: agg_at_def stat_at_def mode_at_def list_at_def)

lemma at_written:
  "a < length s \<Longrightarrow> agg_at (s[a := AggObj g]) a = Some g"
  "a < length s \<Longrightarrow> list_at (s[a := ListObj refs]) a = Some refs"
  by (simp_all add: agg_at_def list_at_def)

lemma at_Some_less:
  "match_at s r = Some m \<Longrightarrow> r < length s"
  "agg_at s r = Some g \<Longrightarrow> r < length s"
  "stat_at s r = Some st \<Longrightarrow> r < length s"
  "mode_at s r = Some md \<Longrightarrow> r < length s"
  "list_at s r = Some refs \<Longrightarrow> r < length s"
  by (simp_all add: match_at_def agg_at_def stat_at_def mode_at_def list_at_def split: if_splits)

lemma list_is_no_dict:
  "list_at s l = Some refs \<Longrightarrow> agg_at s r = Some g \<Longrightarrow> r \<noteq> l"
  "list_at s l = Some refs \<Longrightarrow> stat_at s r = Some st \<Longrightarrow> r \<noteq> l"
  "list_at s l = Some refs \<Longrightarrow> mode_at s r = Some md \<Longrightarrow> r \<noteq> l"
  by (auto simp: agg_at_def stat_at_def mode_at_def list_at_def split: if_splits obj.splits)

lemma map_Some_member: "map f xs = map Some ys \<Longrightarrow> x \<in> set xs \<Longrightarrow> \<exists>y. f x = Some y"
  by (induction xs arbitrary: ys) auto

text \<open>The loop over the sorted queue ids.\<close>

lemma emit_modes_result:
  assumes "list_at s l = Some refs" and "map (mode_at s) refs = map Some mds"
  shows "\<exists>refs'. list_at (foldl (emit_mode l) s qs) l = Some refs'
           \<and> map (mode_at (foldl (emit_mode l) s qs)) refs' = map Some (mds @ map mode_of qs)"
  using assms
proof (induction qs arbitrary: s refs mds)
  case Nil
  then show ?case by simp
next
  case (Cons q qs)
  let ?s1 = "s @ [ModeObj (mode_of q)]"
  let ?s2 = "?s1[l := ListObj (refs @ [length s])]"
  have l: "l < length s"
    using Cons.prems(1) by (rule at_Some_less)
  have step: "emit_mode l s q = ?s2"
    using Cons.prems(1) l by (simp add: emit_mode_def alloc_def list_append_def at_append)
  have 1: "list_at ?s2 l = Some (refs @ [length s])"
    using l by (simp add: at_written)
  have old: "mode_at ?s2 r = mode_at s r" if "r \<in> set refs" for r
  proof -
    from Cons.prems(2) that obtain md where md: "mode_at s r = Some md"
      using map_Some_member by fastforce
    have "r \<noteq> l"
      using Cons.prems(1) md by (rule list_is_no_dict(3))
    moreover have "r < length s"
      using md by (rule at_Some_less)
    ultimately have "r \<noteq> l" "r < length s"
      by simp_all
    then show ?thesis
      by (simp add: at_update at_append)
  qed
  have new: "mode_at ?s2 (length s) = Some (mode_of q)"
    using l by (simp add: at_update at_new)
  have 2: "map (mode_at ?s2) (refs @ [length s]) = map Some (mds @ [mode_of q])"
    using Cons.prems(2) old new by (simp cong: map_cong)
  from Cons.IH [OF 1 2] show ?case
    by (simp add: step)
qed

lemma modes_store_result:
  assumes "load_matches s a = Some items"
  shows "\<exists>l s' refs. get_available_modes_store a s = (Inr l, s')
           \<and> list_at s' l = Some refs
           \<and> map (mode_at s') refs = map Some (get_available_modes (map snd items))"
proof (cases "items = []")
  case True
  with assms show ?thesis
    by (simp add: get_available_modes_store_def get_available_modes_def alloc_def at_new)
next
  case False
  define qs where "qs = sorted_list_of_set (foldl add_queue_id {} (map snd items))"
  define s2 where "s2 = foldl (emit_mode (length s)) (s @ [ListObj []]) qs"
  have r: "get_available_modes_store a s = (Inr (length s), s2)"
    using assms False by (simp add: get_available_modes_store_def alloc_def qs_def s2_def Let_def)
  have v: "get_available_modes (map snd items) = map mode_of qs"
    using False by (simp add: get_available_modes_def qs_def Let_def)
  have "\<exists>refs'. list_at s2 (length s) = Some refs'
           \<and> map (mode_at s2) refs' = map Some ([] @ map mode_of qs)"
    unfolding s2_def by (rule emit_modes_result [where refs = "[]"]) (simp_all add: at_new)
  then show ?thesis
    by (simp add: r v)
qed

lemma map_of_same_keys:
  "map fst xs = map fst ys \<Longrightarrow> (map_of xs k = None) = (map_of ys k = None)"
  by (metis map_of_eq_None_iff set_map)

lemma map_fst_map_entry: "map fst (AList.map_entry k f xs) = map fst xs"
  by (induction xs) auto

lemma map_entry_last:
  "map_of xs k = None \<Longrightarrow> AList.map_entry k f (xs @ [(k, v)]) = xs @ [(k, f v)]"
  by (induction xs) (auto split: if_splits)

lemma aggregates_in_fresh:
  assumes inv: "aggregates_in s0 (dict, s) aggs" and fresh: "map_of dict c = None"
  shows "aggregates_in s0 (dict @ [(c, length s)], s @ [AggObj v]) (aggs @ [(c, v)])"
proof -
  have keys: "map fst dict = map fst aggs" and dk: "distinct (map fst aggs)"
      and da: "distinct (map snd dict)"
      and tab: "\<forall>e\<in>set dict. agg_at s (snd e) = map_of aggs (fst e)"
      and p: "prefix s0 s" and own: "\<forall>e\<in>set dict. length s0 \<le> snd e"
    using inv by (simp_all add: aggregates_in_def own_aggregates_def)
  have none: "map_of aggs c = None"
    using fresh keys map_of_same_keys by metis
  then have c: "c \<notin> set (map fst aggs)"
    by (simp add: map_of_eq_None_iff)
  have some: "map_of aggs (fst e) \<noteq> None" if "e \<in> set dict" for e
  proof -
    have "fst e \<in> set (map fst dict)"
      using that by simp
    then show ?thesis
      by (simp add: keys map_of_eq_None_iff)
  qed
  have less: "snd e < length s" if "e \<in> set dict" for e
  proof -
    from that some tab obtain g where "agg_at s (snd e) = Some g"
      by fastforce
    then show ?thesis
      by (rule at_Some_less)
  qed
  have 1: "own_aggregates s0 (dict @ [(c, length s)], s @ [AggObj v])"
    using p own by (auto simp: own_aggregates_def prefix_prefix prefix_length_le)
  have "length s \<notin> snd ` set dict"
    using less by fastforce
  then have 2: "distinct (map snd (dict @ [(c, length s)]))"
    using da by simp
  have 3: "agg_at (s @ [AggObj v]) (snd e) = map_of (aggs @ [(c, v)]) (fst e)"
    if "e \<in> set (dict @ [(c, length s)])" for e
  proof (cases "e \<in> set dict")
    case True
    then have "agg_at (s @ [AggObj v]) (snd e) = map_of aggs (fst e)"
      using less tab by (simp add: at_append)
    also have "\<dots> = map_of (aggs @ [(c, v)]) (fst e)"
      using some [OF True] by (auto simp: map_add_def split: option.splits)
    finally show ?thesis .
  next
    case False
    with that have "e = (c, length s)"
      by simp
    then show ?thesis
      using none by (simp add: at_new map_add_def)
  qed
  show ?thesis
    unfolding aggregates_in_def using 1 2 3 keys dk c by auto
qed

lemma aggregates_in_update:
  assumes inv: "aggregates_in s0 (dict, s) aggs" and a: "map_of dict c = Some a"
  shows "\<exists>g. agg_at s a = Some g
           \<and> aggregates_in s0 (dict, s[a := AggObj (f g)]) (AList.map_entry c f aggs)"
proof -
  have keys: "map fst dict = map fst aggs" and dk: "distinct (map fst aggs)"
      and da: "distinct (map snd dict)"
      and tab: "\<forall>e\<in>set dict. agg_at s (snd e) = map_of aggs (fst e)"
      and p: "prefix s0 s" and own: "\<forall>e\<in>set dict. length s0 \<le> snd e"
    using inv by (simp_all add: aggregates_in_def own_aggregates_def)
  have mem: "(c, a) \<in> set dict"
    using a by (rule map_of_SomeD)
  have "map_of aggs c \<noteq> None"
    using a keys map_of_same_keys [of dict aggs c] by simp
  then obtain g where g: "map_of aggs c = Some g"
    by auto
  have at: "agg_at s a = Some g"
    using tab mem g by fastforce
  then have less: "a < length s"
    by (rule at_Some_less)
  have 1: "own_aggregates s0 (dict, s[a := AggObj (f g)])"
    using p own mem by (auto simp: own_aggregates_def intro!: prefix_update)
  have "distinct (map fst dict)"
    using dk keys by simp
  then have ik: "inj_on fst (set dict)"
    by (simp add: distinct_map)
  have ia: "inj_on snd (set dict)"
    using da by (simp add: distinct_map)
  have 3: "agg_at (s[a := AggObj (f g)]) (snd e) = map_of (AList.map_entry c f aggs) (fst e)"
    if e: "e \<in> set dict" for e
  proof (cases "snd e = a")
    case True
    then have eq: "snd e = snd (c, a)"
      by simp
    have "e = (c, a)"
      using ia eq e mem by (rule inj_onD)
    then show ?thesis
      using less g by (simp add: at_written map_of_map_entry)
  next
    case False
    have "fst e \<noteq> c"
    proof
      assume "fst e = c"
      then have eq: "fst e = fst (c, a)"
        by simp
      have "e = (c, a)"
        using ik eq e mem by (rule inj_onD)
      with False show False
        by simp
    qed
    then show ?thesis
      using False tab e by (simp add: at_update map_of_map_entry)
  qed
  have "aggregates_in s0 (dict, s[a := AggObj (f g)]) (AList.map_entry c f aggs)"
    unfolding aggregates_in_def using 1 3 keys dk da by (simp add: map_fst_map_entry)
  with at show ?thesis
    by blast
qed

lemma accumulate_store_result:
  assumes inv: "aggregates_in s0 st aggs" and m: "match_at (snd st) r = Some m"
  shows "aggregates_in s0 (accumulate_store st r) (accumulate aggs m)"
proof -
  let ?c = "championName (myData m)"
  let ?d = "myData m"
  obtain dict s where st: "st = (dict, s)"
    by (cases st)
  have keys: "map fst dict = map fst aggs"
    using inv by (simp add: aggregates_in_def st)
  show ?thesis
  proof (cases "map_of dict ?c")
    case None
    then have none: "map_of aggs ?c = None"
      using keys map_of_same_keys by metis
    have found: "map_of (dict @ [(?c, length s)]) ?c = Some (length s)"
      using None by (simp add: map_add_def)
    have "accumulate_store st r
        = (dict @ [(?c, length s)], s @ [AggObj (add_match ?d (new_aggregate ?c))])"
      using m None found
      by (simp add: accumulate_store_def st alloc_def Let_def at_new)
    moreover have "accumulate aggs m = aggs @ [(?c, add_match ?d (new_aggregate ?c))]"
      using none by (simp add: accumulate_def Let_def map_entry_last)
    moreover have "aggregates_in s0 (dict @ [(?c, length s)],
        s @ [AggObj (add_match ?d (new_aggregate ?c))])
        (aggs @ [(?c, add_match ?d (new_aggregate ?c))])"
      using inv None unfolding st by (rule aggregates_in_fresh)
    ultimately show ?thesis
      by simp
  next
    case (Some a)
    then have some: "map_of aggs ?c \<noteq> None"
      using keys map_of_same_keys [of dict aggs ?c] by simp
    from aggregates_in_update [OF inv [unfolded st] Some, of "add_match ?d"]
    obtain g where g: "agg_at s a = Some g"
        "aggregates_in s0 (dict, s[a := AggObj (add_match ?d g)])
           (AList.map_entry ?c (add_match ?d) aggs)"
      by blast
    have "accumulate_store st r = (dict, s[a := AggObj (add_match ?d g)])"
      using m Some g(1) by (simp add: accumulate_store_def st Let_def)
    moreover have "accumulate aggs m = AList.map_entry ?c (add_match ?d) aggs"
    proof -
      from some obtain g' where "map_of aggs ?c = Some g'"
        by blast
      then show ?thesis
        by (simp add: accumulate_def Let_def)
    qed
    ultimately show ?thesis
      using g(2) by simp
  qed
qed

lemma accumulate_loop_result:
  assumes "\<forall>e\<in>set xs. match_at s0 (fst e) = Some (snd e)" and "aggregates_in s0 st aggs"
  shows "aggregates_in s0 (foldl accumulate_store st (map fst xs)) (foldl accumulate aggs (map snd xs))"
  using assms
proof (induction xs arbitrary: st aggs)
  case Nil
  then show ?case by simp
next
  case (Cons x xs)
  have p: "prefix s0 (snd st)"
    using Cons.prems(2) by (simp add: aggregates_in_def own_aggregates_def)
  have "match_at s0 (fst x) = Some (snd x)"
    using Cons.prems(1) by simp
  with p have "match_at (snd st) (fst x) = Some (snd x)"
    by (rule match_at_prefix)
  with Cons.prems(2) have step: "aggregates_in s0 (accumulate_store st (fst x)) (accumulate aggs (snd x))"
    by (rule accumulate_store_result)
  have rest: "\<forall>e\<in>set xs. match_at s0 (fst e) = Some (snd e)"
    using Cons.prems(1) by simp
  have "aggregates_in s0 (foldl accumulate_store (accumulate_store st (fst x)) (map fst xs))
      (foldl accumulate (accumulate aggs (snd x)) (map snd xs))"
    using rest step by (rule Cons.IH)
  then show ?case
    by simp
qed

text \<open>The second loop.\<close>

lemma emit_stats_result:
  assumes "list_at s l = Some refs" and "map (stat_at s) refs = map Some sts"
    and "\<forall>e\<in>set es. agg_at s (snd e) = Some (g e)"
  shows "\<exists>refs'. list_at (foldl (emit_stat l) s es) l = Some refs'
           \<and> map (stat_at (foldl (emit_stat l) s es)) refs'
               = map Some (sts @ map (\<lambda>e. stat_of (fst e, g e)) es)"
  using assms
proof (induction es arbitrary: s refs sts)
  case Nil
  then show ?case by simp
next
  case (Cons e es)
  let ?st = "stat_of (fst e, g e)"
  let ?s1 = "s @ [StatObj ?st]"
  let ?s2 = "?s1[l := ListObj (refs @ [length s])]"
  have l: "l < length s"
    using Cons.prems(1) by (rule at_Some_less)
  have agg: "agg_at s (snd e) = Some (g e)"
    using Cons.prems(3) by simp
  have step: "emit_stat l s e = ?s2"
    using Cons.prems(1) l agg by (simp add: emit_stat_def alloc_def list_append_def at_append)
  have 1: "list_at ?s2 l = Some (refs @ [length s])"
    using l by (simp add: at_written)
  have old: "stat_at ?s2 r = stat_at s r" if "r \<in> set refs" for r
  proof -
    from Cons.prems(2) that obtain y where y: "stat_at s r = Some y"
      using map_Some_member by fastforce
    have "r \<noteq> l"
      using Cons.prems(1) y by (rule list_is_no_dict(2))
    moreover have "r < length s"
      using y by (rule at_Some_less)
    ultimately show ?thesis
      by (simp add: at_update at_append)
  qed
  have new: "stat_at ?s2 (length s) = Some ?st"
    using l by (simp add: at_update at_new)
  have 2: "map (stat_at ?s2) (refs @ [length s]) = map Some (sts @ [?st])"
    using Cons.prems(2) old new by (simp cong: map_cong)
  have 3: "\<forall>e'\<in>set es. agg_at ?s2 (snd e') = Some (g e')"
  proof
    fix e' assume "e' \<in> set es"
    then have a: "agg_at s (snd e') = Some (g e')"
      using Cons.prems(3) by simp
    have "snd e' \<noteq> l"
      using Cons.prems(1) a by (rule list_is_no_dict(1))
    moreover have "snd e' < length s"
      using a by (rule at_Some_less)
    ultimately show "agg_at ?s2 (snd e') = Some (g e')"
      using a by (simp add: at_update at_append)
  qed
  from Cons.IH [OF 1 2 3] show ?case
    by (simp add: step)
qed

text \<open>The sort of the list of references.\<close>

lemma sort_refs:
  assumes "map (stat_at s) refs = map Some sts"
  shows "map (stat_at s) (sorted_reverse (games_at s) refs) = map Some (sorted_reverse games sts)"
proof -
  define k where "k = (\<lambda>v :: champion_stats option. case v of None \<Rightarrow> (0::int) | Some st \<Rightarrow> games st)"
  have "map (stat_at s) (sort_key (\<lambda>r. - k (stat_at s r)) refs)
      = sort_key (\<lambda>v. - k v) (map (stat_at s) refs)"
    by (simp add: sort_key_map)
  also have "\<dots> = sort_key (\<lambda>v. - k v) (map Some sts)"
    by (simp add: assms)
  also have "\<dots> = map Some (sort_key (\<lambda>st. - k (Some st)) sts)"
    by (simp add: sort_key_map)
  finally show ?thesis
    by (simp add: sorted_reverse_def games_at_def k_def)
qed

lemma list_sort_result:
  assumes "list_at s l = Some refs" and "map (stat_at s) refs = map Some sts"
  shows "read_stats (Inr l, list_sort_by_games l s) = Some (Inr (sorted_reverse games sts))"
proof -
  let ?refs = "sorted_reverse (games_at s) refs"
  let ?s' = "s[l := ListObj ?refs]"
  have l: "l < length s"
    using assms(1) by (rule at_Some_less)
  have "stat_at ?s' r = stat_at s r" if "r \<in> set ?refs" for r
  proof -
    from that have "r \<in> set refs"
      by (simp add: sorted_reverse_def)
    with assms(2) obtain y where "stat_at s r = Some y"
      using map_Some_member by fastforce
    with assms(1) have "r \<noteq> l"
      by (rule list_is_no_dict(2))
    then show ?thesis
      by (simp add: at_update)
  qed
  then have "map (stat_at ?s') ?refs = map (stat_at s) ?refs"
    by (simp cong: map_cong)
  also have "\<dots> = map Some (sorted_reverse games sts)"
    using assms(2) by (rule sort_refs)
  finally have "those (map (stat_at ?s') ?refs) = Some (sorted_reverse games sts)"
    by (simp add: those_eq_Some)
  moreover have "list_at ?s' l = Some ?refs"
    using l by (simp add: at_written)
  moreover have "list_sort_by_games l s = ?s'"
    using assms(1) by (simp add: list_sort_by_games_def)
  ultimately show ?thesis
    by (simp add: read_stats_def)
qed

lemma keyed_by_distinct:
  assumes "distinct (map fst aggs)"
  shows "map (\<lambda>k. (k, the (map_of aggs k))) (map fst aggs) = aggs"
  using assms
proof (induction aggs)
  case Nil
  show ?case by simp
next
  case (Cons p ps)
  have "map (\<lambda>k. (k, the (map_of (p # ps) k))) (map fst ps)
      = map (\<lambda>k. (k, the (map_of ps k))) (map fst ps)"
    using Cons.prems by (intro map_cong) (force simp: image_iff)+
  with Cons show ?case
    by simp
qed

lemma stats_store_result:
  assumes "load_matches s a = Some items"
  shows "read_stats (calculate_champion_stats_store now a period mode s)
       = Some (calculate_champion_stats now (map snd items) period mode)"
proof (cases "filter_elements snd now items period mode")
  case (Inl e)
  with assms show ?thesis
    by (simp add: calculate_champion_stats_store_def calculate_champion_stats_def
        filter_elements_map read_stats_def)
next
  case (Inr filtered)
  then have f: "filter_matches now (map snd items) period mode = Inr (map snd filtered)"
    by (simp add: filter_elements_map)
  show ?thesis
  proof (cases "filtered = []")
    case True
    with assms Inr f show ?thesis
      by (simp add: calculate_champion_stats_store_def calculate_champion_stats_def
          read_stats_def alloc_def at_new)
  next
    case False
    define st where "st = foldl accumulate_store ([], s) (map fst filtered)"
    define aggs where "aggs = foldl accumulate [] (map snd filtered)"
    define l where "l = length (snd st)"
    define s3 where "s3 = foldl (emit_stat l) (snd st @ [ListObj []]) (fst st)"
    have r: "calculate_champion_stats_store now a period mode s = (Inr l, list_sort_by_games l s3)"
      using assms Inr False
      by (simp add: calculate_champion_stats_store_def alloc_def st_def l_def s3_def
          Let_def split: prod.splits)
    have v: "calculate_champion_stats now (map snd items) period mode
        = Inr (sorted_reverse games (map stat_of aggs))"
      using f False by (simp add: calculate_champion_stats_def aggs_def Let_def)
    have "set filtered \<subseteq> set items"
      using Inr by (rule filter_elements_subset)
    then have "\<forall>e\<in>set filtered. match_at s (fst e) = Some (snd e)"
      using load_matches_items [OF assms] by blast
    moreover have "aggregates_in s ([], s) []"
      by (simp add: aggregates_in_def own_aggregates_def)
    ultimately have inv: "aggregates_in s st aggs"
      unfolding st_def aggs_def by (rule accumulate_loop_result)
    then have keys: "map fst (fst st) = map fst aggs" and dk: "distinct (map fst aggs)"
        and tab: "\<forall>e\<in>set (fst st). agg_at (snd st) (snd e) = map_of aggs (fst e)"
      by (simp_all add: aggregates_in_def)
    have some: "agg_at (snd st) (snd e) = Some (the (map_of aggs (fst e)))"
      if "e \<in> set (fst st)" for e
    proof -
      have "fst e \<in> set (map fst (fst st))"
        using that by simp
      then have "map_of aggs (fst e) \<noteq> None"
        by (simp add: keys map_of_eq_None_iff)
      then show ?thesis
        using tab that by auto
    qed
    have 3: "\<forall>e\<in>set (fst st). agg_at (snd st @ [ListObj []]) (snd e)
        = Some (the (map_of aggs (fst e)))"
    proof
      fix e assume e: "e \<in> set (fst st)"
      then have "snd e < length (snd st)"
        using some at_Some_less(2) by blast
      then show "agg_at (snd st @ [ListObj []]) (snd e) = Some (the (map_of aggs (fst e)))"
        using some [OF e] by (simp add: at_append)
    qed
    have 1: "list_at (snd st @ [ListObj []]) l = Some []"
      by (simp add: l_def at_new)
    have 2: "map (stat_at (snd st @ [ListObj []])) [] = map Some []"
      by simp
    from emit_stats_result [OF 1 2 3]
    obtain refs where refs: "list_at s3 l = Some refs"
        "map (stat_at s3) refs
           = map Some (map (\<lambda>e. stat_of (fst e, the (map_of aggs (fst e)))) (fst st))"
      unfolding s3_def by auto
    have kd: "map (\<lambda>k. (k, the (map_of aggs k))) (map fst aggs) = aggs"
      using dk by (rule keyed_by_distinct)
    have "map (\<lambda>e. stat_of (fst e, the (map_of aggs (fst e)))) (fst st)
        = map (\<lambda>k. stat_of (k, the (map_of aggs k))) (map fst (fst st))"
      by (simp add: comp_def)
    also have "\<dots> = map (\<lambda>k. stat_of (k, the (map_of aggs k))) (map fst aggs)"
      by (simp only: keys)
    also have "\<dots> = map stat_of (map (\<lambda>k. (k, the (map_of aggs k))) (map fst aggs))"
      by (simp add: comp_def)
    also have "\<dots> = map stat_of aggs"
      by (simp only: kd)
    finally have "map (stat_at s3) refs = map Some (map stat_of aggs)"
      using refs(2) by simp
    with refs(1) have "read_stats (Inr l, list_sort_by_games l s3)
        = Some (Inr (sorted_reverse games (map stat_of aggs)))"
      by (rule list_sort_result)
    then show ?thesis
      by (simp add: r v)
  qed
qed

text \<open>A result read in a store that extends the one it was returned in.\<close>

lemma stat_at_prefix: "prefix s s' \<Longrightarrow> stat_at s r = Some st \<Longrightarrow> stat_at s' r = Some st"
  using prefix_length_le [of s s']
  by (auto simp: stat_at_def prefix_nth split: if_splits)

lemma read_stats_prefix:
  assumes "prefix s s'" and "read_stats (res, s) = Some v"
  shows "read_stats (res, s') = Some v"
proof (cases res)
  case (Inl e)
  with assms(2) show ?thesis
    by (simp add: read_stats_def)
next
  case (Inr l)
  with assms(2) obtain refs sts where refs: "list_at s l = Some refs"
      "those (map (stat_at s) refs) = Some sts" "v = Inr sts"
    by (auto simp: read_stats_def split: option.splits)
  have "those (map (stat_at s') refs) = Some sts"
    using refs(2)
  proof (rule those_cong)
    fix r st assume "stat_at s r = Some st"
    with assms(1) show "stat_at s' r = Some st"
      by (rule stat_at_prefix)
  qed
  moreover have "list_at s' l = Some refs"
    using assms(1) refs(1) by (rule list_at_prefix)
  ultimately show ?thesis
    by (simp add: read_stats_def Inr refs(3))
qed

text \<open>The sample store.\<close>

lemma samples_loaded:
  "load_matches sample_store 5 = Some (zip [0, 1, 2, 3, 4] champion_samples)"
  by (simp add: load_matches_def list_at_def match_at_def sample_store_def champion_samples_def
      nth_append)

lemma samples_loaded_values: "map snd (zip [0, 1, 2, 3, 4 :: nat] champion_samples) = champion_samples"
  by (simp add: champion_samples_def)
subsection \<open>Dependence on the clock\<close>

text \<open>
  Claim C9 says that two calls of \<^verbatim>\<open>calculate_champion_stats\<close> with the same matches,
  period and mode give the same output at any two readings of the clock, also for the
  periods relative to the clock. The code reads \<^verbatim>\<open>datetime.now()\<close> for these periods
  by design, and the claim fails: a match of last week is counted under
  \<open>last_7_days\<close> today and is not counted a year later.
\<close>

theorem clock_dependence:
  "calculate_champion_stats sample_now champion_samples ''last_7_days'' ''all''
     \<noteq> calculate_champion_stats (year_later sample_now) champion_samples ''last_7_days'' ''all''"
proof -
  have "filter (\<lambda>m. timestamp_ms sample_now - 7 * day_ms \<le> gameCreation m) champion_samples
      = champion_samples"
    using samples_created by (simp add: sample_now_def day_ms_def)
  then have "filter_matches sample_now champion_samples ''last_7_days'' ''all''
      = filter_matches sample_now champion_samples ''all'' ''all''"
    by (simp add: filter_matches_def filter_elements_def period_filter_def)
  then have a: "calculate_champion_stats sample_now champion_samples ''last_7_days'' ''all''
      = Inr (map (stat_for champion_samples) [''Lux'', ''Ahri'', ''Jinx''])"
    using stats_of_filter samples_sorted by metis
  have "filter (\<lambda>m. timestamp_ms (year_later sample_now) - 7 * day_ms \<le> gameCreation m)
          champion_samples = []"
    using samples_created by (simp add: sample_now_def year_later_def day_ms_def)
  then have "filter_matches (year_later sample_now) champion_samples ''last_7_days'' ''all'' = Inr []"
    by (simp add: filter_matches_def filter_elements_def period_filter_def mode_filter_all)
  then have b: "calculate_champion_stats (year_later sample_now) champion_samples ''last_7_days'' ''all''
      = Inr []"
    by (simp add: calculate_champion_stats_def)
  show ?thesis
    unfolding a b by simp
qed

text \<open>
  Claim C9, amended. Two calls with the same matches, period and mode give the same
  output at any two readings of the clock when the period is not one of
  \<open>this_week\<close>, \<open>last_week\<close>, \<open>last_30_days\<close>, \<open>last_7_days\<close>; for \<open>this_week\<close> and
  \<open>last_week\<close> when the two readings fall in the same week (the Monday 00:00 before
  them is the same); and for \<open>last_30_days\<close> and \<open>last_7_days\<close> when the two readings
  are the same instant.

  There is no hidden change of the input. On the store, a call leaves the list at \<open>a\<close>
  and the match dictionaries in it as they were. What the caller reads of the result
  is the value of \<open>calculate_champion_stats\<close> on the matches that the list held, the
  period, the mode and the one reading of the clock: nothing else in the store, and no
  address, has a part in it. So of two calls, one after the other on the same list,
  the second finds the matches that the first found; when the two readings of the
  clock give the same value on these matches, the second call returns what the first
  returned, and the result of the first still reads the same after the second.
\<close>

theorem clock_independence:
  "(\<not> clock_relative period
      \<longrightarrow> calculate_champion_stats now1 ms period mode
          = calculate_champion_stats now2 ms period mode)
   \<and> ((period = ''this_week'' \<or> period = ''last_week'') \<and> monday_start now1 = monday_start now2
      \<longrightarrow> calculate_champion_stats now1 ms period mode
          = calculate_champion_stats now2 ms period mode)
   \<and> ((period = ''last_30_days'' \<or> period = ''last_7_days'') \<and> timestamp_ms now1 = timestamp_ms now2
      \<longrightarrow> calculate_champion_stats now1 ms period mode
          = calculate_champion_stats now2 ms period mode)
   \<and> unchanged s a (snd (calculate_champion_stats_store now1 a period mode s))
   \<and> (load_matches s a = Some items
      \<longrightarrow> read_stats (calculate_champion_stats_store now1 a period mode s)
          = Some (calculate_champion_stats now1 (map snd items) period mode))
   \<and> (load_matches s a = Some items
        \<and> calculate_champion_stats now1 (map snd items) period mode
            = calculate_champion_stats now2 (map snd items) period mode
      \<longrightarrow> (let first = calculate_champion_stats_store now1 a period mode s;
               second = calculate_champion_stats_store now2 a period mode (snd first)
           in read_stats second = read_stats first
              \<and> read_stats (fst first, snd second) = read_stats first
              \<and> load_matches (snd second) a = Some items))"
proof (intro conjI impI)
  assume "\<not> clock_relative period"
  then show "calculate_champion_stats now1 ms period mode = calculate_champion_stats now2 ms period mode"
    by (intro stats_of_filter filter_of_period_filter period_filter_clock(1))
next
  assume "(period = ''this_week'' \<or> period = ''last_week'') \<and> monday_start now1 = monday_start now2"
  then show "calculate_champion_stats now1 ms period mode = calculate_champion_stats now2 ms period mode"
    by (intro stats_of_filter filter_of_period_filter period_filter_clock(2)) simp_all
next
  assume "(period = ''last_30_days'' \<or> period = ''last_7_days'') \<and> timestamp_ms now1 = timestamp_ms now2"
  then show "calculate_champion_stats now1 ms period mode = calculate_champion_stats now2 ms period mode"
    by (intro stats_of_filter filter_of_period_filter period_filter_clock(3)) simp_all
next
  show "unchanged s a (snd (calculate_champion_stats_store now1 a period mode s))"
    using stats_store_frame [where now = now1 and a = a and period = period and mode = mode
        and s = s]
    by (simp add: split_beta)
next
  assume "load_matches s a = Some items"
  then show "read_stats (calculate_champion_stats_store now1 a period mode s)
      = Some (calculate_champion_stats now1 (map snd items) period mode)"
    by (rule stats_store_result)
next
  assume h: "load_matches s a = Some items
        \<and> calculate_champion_stats now1 (map snd items) period mode
            = calculate_champion_stats now2 (map snd items) period mode"
  define first where "first = calculate_champion_stats_store now1 a period mode s"
  define second where "second = calculate_champion_stats_store now2 a period mode (snd first)"
  have u1: "unchanged s a (snd first)"
    unfolding first_def
    using stats_store_frame [where now = now1 and a = a and period = period and mode = mode
        and s = s]
    by (simp add: split_beta)
  then have l1: "load_matches (snd first) a = Some items"
    using h by (simp add: unchanged_def)
  have u2: "unchanged (snd first) a (snd second)"
    unfolding second_def using stats_store_frame [where now = now2 and a = a and period = period and mode = mode
        and s = "snd first"]
    by (simp add: split_beta)
  then have l2: "load_matches (snd second) a = Some items"
    using l1 by (simp add: unchanged_def)
  have r1: "read_stats first = Some (calculate_champion_stats now1 (map snd items) period mode)"
    unfolding first_def using h by (intro stats_store_result) simp
  have r2: "read_stats second = Some (calculate_champion_stats now2 (map snd items) period mode)"
    unfolding second_def using l1 by (rule stats_store_result)
  have "prefix (snd first) (snd second)"
    using u2 by (simp add: unchanged_def)
  moreover have "read_stats (fst first, snd first)
      = Some (calculate_champion_stats now1 (map snd items) period mode)"
    using r1 by simp
  ultimately have r3: "read_stats (fst first, snd second)
      = Some (calculate_champion_stats now1 (map snd items) period mode)"
    by (rule read_stats_prefix)
  show "let first = calculate_champion_stats_store now1 a period mode s;
            second = calculate_champion_stats_store now2 a period mode (snd first)
        in read_stats second = read_stats first
           \<and> read_stats (fst first, snd second) = read_stats first
           \<and> load_matches (snd second) a = Some items"
    unfolding Let_def first_def [symmetric] second_def [symmetric]
    using r1 r2 r3 l2 h by simp
qed

theorem clock_independence_witness:
  "\<not> clock_relative ''patch_14.3''
   \<and> calculate_champion_stats sample_now champion_samples ''patch_14.3'' ''420''
       = calculate_champion_stats (year_later sample_now) champion_samples ''patch_14.3'' ''420''
   \<and> monday_start sample_now = monday_start (hour_later sample_now)
   \<and> calculate_champion_stats sample_now champion_samples ''this_week'' ''all''
       = calculate_champion_stats (hour_later sample_now) champion_samples ''this_week'' ''all''
   \<and> load_matches sample_store 5 = Some (zip [0, 1, 2, 3, 4] champion_samples)
   \<and> read_stats (calculate_champion_stats_store sample_now 5 ''all'' ''all'' sample_store)
       = Some (Inr (map (stat_for champion_samples) [''Lux'', ''Ahri'', ''Jinx'']))
   \<and> read_stats (calculate_champion_stats_store (year_later sample_now) 5 ''all'' ''all''
         (snd (calculate_champion_stats_store sample_now 5 ''all'' ''all'' sample_store)))
       = Some (Inr (map (stat_for champion_samples) [''Lux'', ''Ahri'', ''Jinx'']))
   \<and> load_matches
         (snd (calculate_champion_stats_store (year_later sample_now) 5 ''all'' ''all''
           (snd (calculate_champion_stats_store sample_now 5 ''all'' ''all'' sample_store)))) 5
       = Some (zip [0, 1, 2, 3, 4] champion_samples)"
proof -
  have 1: "\<not> clock_relative ''patch_14.3''"
    by (simp add: clock_relative_def)
  have 2: "monday_start sample_now = monday_start (hour_later sample_now)"
    by (simp add: monday_start_def hour_later_def)
  have 3: "\<not> clock_relative ''all''"
    by (simp add: clock_relative_def)
  note a = clock_independence [where period = "''patch_14.3''" and ?now1.0 = sample_now
      and ms = champion_samples and mode = "''420''" and ?now2.0 = "year_later sample_now",
      THEN conjunct1]
  note b = clock_independence [where period = "''this_week''" and ?now1.0 = sample_now
      and ms = champion_samples and mode = "''all''" and ?now2.0 = "hour_later sample_now",
      THEN conjunct2, THEN conjunct1]
  note c = clock_independence [where period = "''all''" and ?now1.0 = sample_now
      and ms = champion_samples and mode = "''all''" and ?now2.0 = "year_later sample_now"
      and s = sample_store and a = 5 and items = "zip [0, 1, 2, 3, 4] champion_samples",
      unfolded samples_loaded_values Let_def]
  note c1 = c [THEN conjunct1]
  note c5 = c [THEN conjunct2, THEN conjunct2, THEN conjunct2, THEN conjunct2, THEN conjunct1]
  note c6 = c [THEN conjunct2, THEN conjunct2, THEN conjunct2, THEN conjunct2, THEN conjunct2]
  have v: "calculate_champion_stats sample_now champion_samples ''all'' ''all''
      = Inr (map (stat_for champion_samples) [''Lux'', ''Ahri'', ''Jinx''])"
    using stats_of_filter samples_sorted by metis
  have 4: "calculate_champion_stats sample_now champion_samples ''patch_14.3'' ''420''
       = calculate_champion_stats (year_later sample_now) champion_samples ''patch_14.3'' ''420''"
    using a 1 by (rule mp)
  have 5: "calculate_champion_stats sample_now champion_samples ''this_week'' ''all''
       = calculate_champion_stats (hour_later sample_now) champion_samples ''this_week'' ''all''"
    using b 2 by blast
  have e: "calculate_champion_stats sample_now champion_samples ''all'' ''all''
      = calculate_champion_stats (year_later sample_now) champion_samples ''all'' ''all''"
    using c1 3 by (rule mp)
  have r1: "read_stats (calculate_champion_stats_store sample_now 5 ''all'' ''all'' sample_store)
       = Some (calculate_champion_stats sample_now champion_samples ''all'' ''all'')"
    using c5 samples_loaded by (rule mp)
  have r2: "read_stats (calculate_champion_stats_store (year_later sample_now) 5 ''all'' ''all''
         (snd (calculate_champion_stats_store sample_now 5 ''all'' ''all'' sample_store)))
       = read_stats (calculate_champion_stats_store sample_now 5 ''all'' ''all'' sample_store)
     \<and> read_stats
         (fst (calculate_champion_stats_store sample_now 5 ''all'' ''all'' sample_store),
          snd (calculate_champion_stats_store (year_later sample_now) 5 ''all'' ''all''
            (snd (calculate_champion_stats_store sample_now 5 ''all'' ''all'' sample_store))))
       = read_stats (calculate_champion_stats_store sample_now 5 ''all'' ''all'' sample_store)
     \<and> load_matches
         (snd (calculate_champion_stats_store (year_later sample_now) 5 ''all'' ''all''
           (snd (calculate_champion_stats_store sample_now 5 ''all'' ''all'' sample_store)))) 5
       = Some (zip [0, 1, 2, 3, 4] champion_samples)"
    using c6 conjI [OF samples_loaded e] by (rule mp)
  show ?thesis
    unfolding r2 [THEN conjunct1] r2 [THEN conjunct2, THEN conjunct2] r1 v
    using 1 2 4 5 samples_loaded by (intro conjI refl)
qed
subsection \<open>The arguments are left as they were\<close>

text \<open>
  Claim C10. No function changes its input. Each of \<^verbatim>\<open>filter_matches\<close>,
  \<^verbatim>\<open>calculate_champion_stats\<close>, \<^verbatim>\<open>get_recent_matches\<close>, \<^verbatim>\<open>get_available_patches\<close>
  and \<^verbatim>\<open>get_available_modes\<close>, called on the list at the address \<open>a\<close> of a store \<open>s\<close>,
  returns in a store that extends \<open>s\<close>: every object of \<open>s\<close> is there as it was, so
  that the list at \<open>a\<close> and every match dictionary in it read the same after the call
  as before. The list returned is a new object, at an address that \<open>s\<close> does not
  have; a call that raises leaves the store as it found it. (The writes of
  \<^verbatim>\<open>calculate_champion_stats\<close> and \<^verbatim>\<open>get_available_modes\<close>, in place, go to the
  dictionaries and the list that the call itself created.)
\<close>

theorem inputs_unchanged:
  "(case filter_matches_store now a period mode s of
      (res, s') \<Rightarrow> unchanged s a s' \<and> new_in s res s')
   \<and> (case calculate_champion_stats_store now a period mode s of
      (res, s') \<Rightarrow> unchanged s a s' \<and> new_in s res s')
   \<and> (case get_recent_matches_store a n s of
      (res, s') \<Rightarrow> unchanged s a s' \<and> new_in s res s')
   \<and> (case get_available_patches_store a s of
      (res, s') \<Rightarrow> unchanged s a s' \<and> new_in s res s')
   \<and> (case get_available_modes_store a s of
      (res, s') \<Rightarrow> unchanged s a s' \<and> new_in s res s')"
  by (intro conjI filter_store_frame stats_store_frame recent_store_frame patches_store_frame
      modes_store_frame)

theorem inputs_unchanged_witness:
  "load_matches sample_store 5 = Some (zip [0, 1, 2, 3, 4] champion_samples)
   \<and> load_matches (snd (filter_matches_store sample_now 5 ''last_7_days'' ''420'' sample_store)) 5
       = Some (zip [0, 1, 2, 3, 4] champion_samples)
   \<and> load_matches (snd (calculate_champion_stats_store sample_now 5 ''all'' ''all'' sample_store)) 5
       = Some (zip [0, 1, 2, 3, 4] champion_samples)
   \<and> prefix sample_store
         (snd (calculate_champion_stats_store sample_now 5 ''all'' ''all'' sample_store))"
proof -
  note t = inputs_unchanged [where now = sample_now and a = 5 and s = sample_store]
  have "unchanged sample_store 5
      (snd (filter_matches_store sample_now 5 ''last_7_days'' ''420'' sample_store))"
    using t [where period = "''last_7_days''" and mode = "''420''", THEN conjunct1]
    by (simp add: split_beta)
  moreover have "unchanged sample_store 5
      (snd (calculate_champion_stats_store sample_now 5 ''all'' ''all'' sample_store))"
    using t [where period = "''all''" and mode = "''all''", THEN conjunct2, THEN conjunct1]
    by (simp add: split_beta)
  ultimately show ?thesis
    using samples_loaded by (simp add: unchanged_def)
qed
end
